theory Spec2Isabelle
  imports Complex_Main
begin

section \<open>The parking facility of Parking-tracking.cpp\<close>

text \<open>
  A shallow embedding of the C++ program. Every class is a record (or, for the
  \<open>Vehicle\<close> hierarchy, a datatype with one constructor per concrete class), every
  member function takes the object and returns the updated object, and the loops over
  \<open>std::vector\<close> are recursive functions over lists that follow the iteration order.

  Conventions of the model:
  \<^item> \<open>int\<close> is a 32-bit signed integer. Values are kept as mathematical integers and
    every \<open>++\<close>, \<open>--\<close>, \<open>+=\<close> and \<open>-\<close> of the source that would leave the range
    \<open>INT_MIN .. INT_MAX\<close> is undefined behaviour, which the model returns as the value
    \<open>Inl SignedOverflow\<close>.
  \<^item> \<open>std::unique_ptr<Vehicle>\<close> is \<open>Vehicle option\<close>; dereferencing \<open>None\<close> is
    \<open>Inl NullDereference\<close>; \<open>floors[i]\<close> outside the vector is \<open>Inl IndexOutOfRange\<close>.
  \<^item> \<open>std::chrono::system_clock::now()\<close> is an input: each operation receives the clock
    readings it makes as arguments. A reading is the \<open>int64\<close> count of nanoseconds
    since the epoch that libstdc++'s \<open>system_clock\<close> holds. The system clock is a wall
    clock, so nothing orders two readings. The difference of two readings is an
    \<open>int64\<close> subtraction, undefined outside the \<open>int64\<close> range like every signed
    overflow.
  \<^item> \<open>double\<close> is \<open>real\<close>. The duration of a stay is rounded as the source rounds
    it: \<open>to_double\<close> rounds a real to the nearest binary64 number, ties to even, and
    is applied to the conversion of the tick count and to each of the two divisions
    that follow. The amounts of money are whole multiples of 10; below \<open>2^53\<close>, which
    no charge reaches, their products, minima and sums are exact in a \<open>double\<close>,
    and they are left unrounded.
  \<^item> \<open>std::cin\<close> is an input (the parsed menu choice, type choice and registration) and
    \<open>std::cout\<close> is the returned \<open>report\<close> value.
  \<^item> Running out of memory is not modelled.
  \<^item> Names are those of the source. The fields \<open>id\<close>, \<open>floor\<close>, \<open>slotId\<close> and
    \<open>status\<close> of \<open>ParkingSlot\<close> and \<open>Ticket\<close> carry the prefixes \<open>ps_\<close> and
    \<open>tk_\<close>, a member function that two classes define carries its class
    (\<open>slot_parkVehicle\<close>, \<open>floor_parkVehicle\<close>), a constructor is \<open>_ctor\<close>, and the
    body of a loop is the function named after its member function and the vector it
    runs over (\<open>parkVehicle_slots\<close>, \<open>parkVehicle_floors\<close>).
\<close>

subsection \<open>Constants and enums\<close>

definition CAR_HOURLY_RATE :: real where "CAR_HOURLY_RATE = 20.0"
definition BIKE_HOURLY_RATE :: real where "BIKE_HOURLY_RATE = 10.0"
definition DAILY_MAX :: real where "DAILY_MAX = 200.0"
definition MIN_CHARGE_HOURS :: real where "MIN_CHARGE_HOURS = 1.0"

definition INT_MAX :: int where "INT_MAX = 2147483647"
definition INT_MIN :: int where "INT_MIN = - 2147483648"

datatype VehicleType = CAR | BIKE | HANDICAPPED | ELECTRIC
datatype SlotStatus = FREE | OCCUPIED | RESERVED | MAINTENANCE

datatype fault = NullDereference | IndexOutOfRange | SignedOverflow

type_synonym time_point = int

definition in_int64_range :: "int \<Rightarrow> bool" where
  "in_int64_range x \<longleftrightarrow> - 9223372036854775808 \<le> x \<and> x \<le> 9223372036854775807"

subsection \<open>Rounding to \<open>double\<close>\<close>

text \<open>
  Round to nearest, ties to even, on the binary64 format: 53 significant bits, and
  the fixed spacing \<open>2^-1074\<close> below \<open>2^-1022\<close>. \<open>round_even\<close> rounds a real to the
  nearest integer, a tie to the even one. Overflow to infinity, from \<open>2^1024\<close> on,
  is left out: the numbers rounded here are quotients of an \<open>int64\<close>.
\<close>

definition round_even :: "real \<Rightarrow> int" where
  "round_even y =
     (let f = \<lfloor>y\<rfloor> in
      if y - of_int f < 1 / 2 then f
      else if 1 / 2 < y - of_int f then f + 1
      else if even f then f else f + 1)"

definition to_double :: "real \<Rightarrow> real" where
  "to_double x =
     (if x = 0 then 0
      else
        (let e = max \<lfloor>log 2 \<bar>x\<bar>\<rfloor> (- 1022);
             ulp = 2 powr of_int (e - 52)
         in ulp * of_int (round_even (x / ulp))))"

text \<open>
  \<open>std::chrono::duration<double>(d).count()\<close> for a duration \<open>d\<close> of \<open>ticks\<close>
  nanoseconds: the count is converted to \<open>double\<close> and divided by \<open>1e9\<close>.
\<close>

definition duration_double_count :: "int \<Rightarrow> real" where
  "duration_double_count ticks = to_double (to_double (of_int ticks) / 1000000000)"

subsection \<open>Vehicle classes\<close>

text \<open>
  One constructor per concrete class, carrying the constructor arguments. \<open>Car\<close>,
  \<open>Bike\<close> and \<open>ElectricCar\<close> fix the \<open>type\<close> field; \<open>HandicappedVehicle\<close> stores the
  \<open>baseType\<close> it is given.
\<close>

datatype Vehicle =
    Car string
  | Bike string
  | ElectricCar string
  | HandicappedVehicle string VehicleType

fun getRegistration :: "Vehicle \<Rightarrow> string" where
  "getRegistration (Car reg) = reg"
| "getRegistration (Bike reg) = reg"
| "getRegistration (ElectricCar reg) = reg"
| "getRegistration (HandicappedVehicle reg baseType) = reg"

fun getType :: "Vehicle \<Rightarrow> VehicleType" where
  "getType (Car reg) = CAR"
| "getType (Bike reg) = BIKE"
| "getType (ElectricCar reg) = ELECTRIC"
| "getType (HandicappedVehicle reg baseType) = baseType"

fun getHourlyRate :: "Vehicle \<Rightarrow> real" where
  "getHourlyRate (Car reg) = CAR_HOURLY_RATE"
| "getHourlyRate (Bike reg) = BIKE_HOURLY_RATE"
| "getHourlyRate (ElectricCar reg) = CAR_HOURLY_RATE * 0.8"
| "getHourlyRate (HandicappedVehicle reg baseType) =
     (if baseType = CAR then CAR_HOURLY_RATE * 0.5 else BIKE_HOURLY_RATE * 0.5)"

fun getTypeString :: "Vehicle \<Rightarrow> string" where
  "getTypeString (Car reg) = ''Car''"
| "getTypeString (Bike reg) = ''Bike''"
| "getTypeString (ElectricCar reg) = ''Electric Car''"
| "getTypeString (HandicappedVehicle reg baseType) =
     (if baseType = CAR then ''Handicapped Car'' else ''Handicapped Bike'')"

subsection \<open>ParkingSlot\<close>

record ParkingSlot =
  ps_id :: int
  ps_floor :: int
  ps_status :: SlotStatus
  allowedType :: VehicleType
  currentVehicle :: "Vehicle option"
  occupiedSince :: time_point

definition ParkingSlot_ctor :: "int \<Rightarrow> int \<Rightarrow> VehicleType \<Rightarrow> ParkingSlot" where
  "ParkingSlot_ctor slotId flr ty =
     \<lparr>ps_id = slotId, ps_floor = flr, ps_status = FREE, allowedType = ty,
      currentVehicle = None, occupiedSince = 0\<rparr>"

definition isCompatible :: "ParkingSlot \<Rightarrow> VehicleType \<Rightarrow> bool" where
  "isCompatible slot vehicleType \<longleftrightarrow>
     ps_status slot = FREE \<and> allowedType slot = vehicleType"

text \<open>
  \<open>ParkingSlot::parkVehicle\<close> takes the pointer by value: whatever it returns, the
  caller's pointer is empty afterwards. The clock is read on the success path only.
\<close>

definition slot_parkVehicle ::
  "ParkingSlot \<Rightarrow> Vehicle option \<Rightarrow> time_point \<Rightarrow> fault + (bool \<times> ParkingSlot)" where
  "slot_parkVehicle slot vehicle now =
     (case vehicle of
        None \<Rightarrow> Inl NullDereference
      | Some v \<Rightarrow>
          if \<not> isCompatible slot (getType v) then Inr (False, slot)
          else Inr (True, slot\<lparr>currentVehicle := Some v, ps_status := OCCUPIED,
                                occupiedSince := now\<rparr>))"

definition vacate :: "ParkingSlot \<Rightarrow> Vehicle option \<times> ParkingSlot" where
  "vacate slot = (currentVehicle slot, slot\<lparr>currentVehicle := None, ps_status := FREE\<rparr>)"

subsection \<open>Ticket\<close>

record Ticket =
  tk_id :: int
  tk_floor :: int
  tk_slotId :: int
  vehicleReg :: string
  vehicleType :: VehicleType
  entryTime :: time_point
  exitTime :: time_point
  isActive :: bool

text \<open>The constructor reads the clock for \<open>entryTime\<close>; \<open>exitTime\<close> starts at the epoch.\<close>

definition Ticket_ctor ::
  "int \<Rightarrow> string \<Rightarrow> VehicleType \<Rightarrow> int \<Rightarrow> int \<Rightarrow> time_point \<Rightarrow> Ticket" where
  "Ticket_ctor ticketId reg ty flr slot now =
     \<lparr>tk_id = ticketId, tk_floor = flr, tk_slotId = slot, vehicleReg = reg,
      vehicleType = ty, entryTime = now, exitTime = 0, isActive = True\<rparr>"

definition ticket_exit :: "Ticket \<Rightarrow> time_point \<Rightarrow> Ticket" where
  "ticket_exit t now = t\<lparr>exitTime := now, isActive := False\<rparr>"

text \<open>
  The duration in hours, as a \<open>double\<close>; \<open>now\<close> is the reading made when the ticket
  is still active.
\<close>

definition getParkingDuration :: "Ticket \<Rightarrow> time_point \<Rightarrow> real" where
  "getParkingDuration t now =
     (let endTime = (if isActive t then now else exitTime t)
      in to_double (duration_double_count (endTime - entryTime t) / 3600.0))"

subsection \<open>ParkingFloor\<close>

record ParkingFloor =
  floorNumber :: int
  slots :: "ParkingSlot list"
  occupiedSlots :: int

text \<open>
  The two constructor loops, \<open>n\<close> iterations left, \<open>i\<close> the running slot id. The
  post-increment \<open>id++\<close> overflows at \<open>INT_MAX\<close>.
\<close>

fun emplace_slots ::
  "nat \<Rightarrow> int \<Rightarrow> int \<Rightarrow> VehicleType \<Rightarrow> ParkingSlot list \<Rightarrow> fault + (int \<times> ParkingSlot list)" where
  "emplace_slots 0 i floorNum ty acc = Inr (i, acc)"
| "emplace_slots (Suc n) i floorNum ty acc =
     (if i = INT_MAX then Inl SignedOverflow
      else emplace_slots n (i + 1) floorNum ty (acc @ [ParkingSlot_ctor i floorNum ty]))"

definition ParkingFloor_ctor :: "int \<Rightarrow> int \<Rightarrow> int \<Rightarrow> fault + ParkingFloor" where
  "ParkingFloor_ctor floorNum carSlots bikeSlots =
     (case emplace_slots (nat carSlots) 1 floorNum CAR [] of
        Inl e \<Rightarrow> Inl e
      | Inr (i, cars) \<Rightarrow>
          (case emplace_slots (nat bikeSlots) i floorNum BIKE cars of
             Inl e \<Rightarrow> Inl e
           | Inr (j, all_slots) \<Rightarrow>
               Inr \<lparr>floorNumber = floorNum, slots = all_slots, occupiedSlots = 0\<rparr>))"

text \<open>
  \<open>findAvailableSlot\<close> returns a pointer into the vector: here the index of the first
  compatible slot, \<open>None\<close> for \<open>nullptr\<close>.
\<close>

fun findAvailableSlot_from :: "ParkingSlot list \<Rightarrow> VehicleType \<Rightarrow> nat option" where
  "findAvailableSlot_from [] ty = None"
| "findAvailableSlot_from (slot # rest) ty =
     (if isCompatible slot ty then Some 0
      else map_option Suc (findAvailableSlot_from rest ty))"

definition findAvailableSlot :: "ParkingFloor \<Rightarrow> VehicleType \<Rightarrow> nat option" where
  "findAvailableSlot f ty = findAvailableSlot_from (slots f) ty"

text \<open>
  The loop of \<open>ParkingFloor::parkVehicle\<close>. The \<open>&&\<close> calls \<open>slot.parkVehicle\<close> only
  for a slot with the requested id, and that call consumes the pointer: after a
  refused attempt the loop goes on with an empty pointer.
\<close>

fun parkVehicle_slots ::
  "ParkingSlot list \<Rightarrow> int \<Rightarrow> Vehicle option \<Rightarrow> time_point \<Rightarrow> fault + (bool \<times> ParkingSlot list)" where
  "parkVehicle_slots [] slotId vehicle now = Inr (False, [])"
| "parkVehicle_slots (slot # rest) slotId vehicle now =
     (if ps_id slot = slotId then
        (case slot_parkVehicle slot vehicle now of
           Inl e \<Rightarrow> Inl e
         | Inr (ok, slot') \<Rightarrow>
             if ok then Inr (True, slot' # rest)
             else (case parkVehicle_slots rest slotId None now of
                     Inl e \<Rightarrow> Inl e
                   | Inr (found, rest') \<Rightarrow> Inr (found, slot' # rest')))
      else
        (case parkVehicle_slots rest slotId vehicle now of
           Inl e \<Rightarrow> Inl e
         | Inr (found, rest') \<Rightarrow> Inr (found, slot # rest')))"

definition floor_parkVehicle ::
  "ParkingFloor \<Rightarrow> int \<Rightarrow> Vehicle option \<Rightarrow> time_point \<Rightarrow> fault + (bool \<times> ParkingFloor)" where
  "floor_parkVehicle f slotId vehicle now =
     (case parkVehicle_slots (slots f) slotId vehicle now of
        Inl e \<Rightarrow> Inl e
      | Inr (found, slots') \<Rightarrow>
          if found then
            (if occupiedSlots f = INT_MAX then Inl SignedOverflow
             else Inr (True, f\<lparr>slots := slots', occupiedSlots := occupiedSlots f + 1\<rparr>))
          else Inr (False, f\<lparr>slots := slots'\<rparr>))"

text \<open>The loop of \<open>vacateSlot\<close>: the first slot with the id that is occupied.\<close>

fun vacateSlot_slots ::
  "ParkingSlot list \<Rightarrow> int \<Rightarrow> (Vehicle option \<times> ParkingSlot list) option" where
  "vacateSlot_slots [] slotId = None"
| "vacateSlot_slots (slot # rest) slotId =
     (if ps_id slot = slotId \<and> ps_status slot = OCCUPIED
      then Some (fst (vacate slot), snd (vacate slot) # rest)
      else (case vacateSlot_slots rest slotId of
              None \<Rightarrow> None
            | Some (v, rest') \<Rightarrow> Some (v, slot # rest')))"

definition vacateSlot :: "ParkingFloor \<Rightarrow> int \<Rightarrow> fault + (Vehicle option \<times> ParkingFloor)" where
  "vacateSlot f slotId =
     (case vacateSlot_slots (slots f) slotId of
        None \<Rightarrow> Inr (None, f)
      | Some (v, slots') \<Rightarrow>
          if occupiedSlots f = INT_MIN then Inl SignedOverflow
          else Inr (v, f\<lparr>slots := slots', occupiedSlots := occupiedSlots f - 1\<rparr>))"

definition getOccupiedSlots :: "ParkingFloor \<Rightarrow> int" where
  "getOccupiedSlots f = occupiedSlots f"

text \<open>\<open>slots.size()\<close> converted to \<open>int\<close>: the value modulo \<open>2^32\<close>, read as signed.\<close>

definition getTotalSlots :: "ParkingFloor \<Rightarrow> int" where
  "getTotalSlots f = (int (length (slots f)) + 2147483648) mod 4294967296 - 2147483648"

subsection \<open>ParkingSystem\<close>

record ParkingSystem =
  floors :: "ParkingFloor list"
  activeTickets :: "string \<rightharpoonup> Ticket"
  ticketCounter :: int
  totalRevenue :: real

text \<open>What an operation prints after its prompts.\<close>

datatype report =
    VehicleParked int  \<comment> \<open>\<open>Vehicle parked. Ticket ID: <id>\<close>\<close>
  | NoSlotsAvailable  \<comment> \<open>\<open>No slots available.\<close>\<close>
  | VehicleNotFound  \<comment> \<open>\<open>Vehicle not found.\<close>\<close>
  | ParkingCharge real  \<comment> \<open>\<open>Parking charge: $<charge>\<close>\<close>
  | StatusReport int int int  \<comment> \<open>\<open>Total Slots\<close>, \<open>Occupied\<close>, \<open>Available\<close>\<close>

text \<open>
  The constructor loop \<open>for (int i = 1; i <= numFloors; ++i)\<close>, \<open>n\<close> iterations left.
\<close>

fun emplace_floors ::
  "nat \<Rightarrow> int \<Rightarrow> int \<Rightarrow> int \<Rightarrow> ParkingFloor list \<Rightarrow> fault + ParkingFloor list" where
  "emplace_floors 0 i carsPerFloor bikesPerFloor acc = Inr acc"
| "emplace_floors (Suc n) i carsPerFloor bikesPerFloor acc =
     (case ParkingFloor_ctor i carsPerFloor bikesPerFloor of
        Inl e \<Rightarrow> Inl e
      | Inr f \<Rightarrow>
          if i = INT_MAX then Inl SignedOverflow
          else emplace_floors n (i + 1) carsPerFloor bikesPerFloor (acc @ [f]))"

definition ParkingSystem_ctor :: "int \<Rightarrow> int \<Rightarrow> int \<Rightarrow> fault + ParkingSystem" where
  "ParkingSystem_ctor numFloors carsPerFloor bikesPerFloor =
     (case emplace_floors (nat numFloors) 1 carsPerFloor bikesPerFloor [] of
        Inl e \<Rightarrow> Inl e
      | Inr fs \<Rightarrow>
          Inr \<lparr>floors = fs, activeTickets = Map.empty, ticketCounter = 1000,
               totalRevenue = 0\<rparr>)"

text \<open>
  The loop over the floors in \<open>ParkingSystem::parkVehicle\<close>. It returns the slot the
  pointer \<open>slot\<close> refers to after a successful \<open>floor.parkVehicle\<close>, or \<open>None\<close> when
  the loop runs off the end. \<open>vehicle->getType()\<close> dereferences the pointer on every
  iteration, and \<open>floor.parkVehicle\<close> consumes it. The index \<open>i\<close> that
  \<open>findAvailableSlot\<close> returns is inside the vector, and \<open>floor.parkVehicle\<close> keeps
  the vector's length.
\<close>

fun parkVehicle_floors ::
  "ParkingFloor list \<Rightarrow> Vehicle option \<Rightarrow> time_point \<Rightarrow>
     fault + (ParkingSlot option \<times> ParkingFloor list)" where
  "parkVehicle_floors [] vehicle now = Inr (None, [])"
| "parkVehicle_floors (f # rest) vehicle now =
     (case vehicle of
        None \<Rightarrow> Inl NullDereference
      | Some v \<Rightarrow>
          (case findAvailableSlot f (getType v) of
             None \<Rightarrow>
               (case parkVehicle_floors rest vehicle now of
                  Inl e \<Rightarrow> Inl e
                | Inr (r, rest') \<Rightarrow> Inr (r, f # rest'))
           | Some i \<Rightarrow>
               (case floor_parkVehicle f (ps_id (slots f ! i)) vehicle now of
                  Inl e \<Rightarrow> Inl e
                | Inr (ok, f') \<Rightarrow>
                    if ok then Inr (Some (slots f' ! i), f' # rest)
                    else (case parkVehicle_floors rest None now of
                            Inl e \<Rightarrow> Inl e
                          | Inr (r, rest') \<Rightarrow> Inr (r, f' # rest')))))"

text \<open>
  \<open>parkVehicle\<close> with its two inputs and its two clock readings: \<open>now_slot\<close> is read by
  the slot when it is occupied, \<open>now_ticket\<close> by the ticket constructor.
\<close>

definition parkVehicle ::
  "ParkingSystem \<Rightarrow> int \<Rightarrow> string \<Rightarrow> time_point \<Rightarrow> time_point \<Rightarrow>
     fault + (report \<times> ParkingSystem)" where
  "parkVehicle s typeChoice reg now_slot now_ticket =
     (let vehicle = (if typeChoice = 1 then Car reg else Bike reg) in
      case parkVehicle_floors (floors s) (Some vehicle) now_slot of
        Inl e \<Rightarrow> Inl e
      | Inr (found, floors') \<Rightarrow>
          (case found of
             None \<Rightarrow> Inr (NoSlotsAvailable, s\<lparr>floors := floors'\<rparr>)
           | Some slot \<Rightarrow>
               (case currentVehicle slot of
                  None \<Rightarrow> Inl NullDereference
                | Some v \<Rightarrow>
                    if ticketCounter s = INT_MAX then Inl SignedOverflow
                    else
                      (let ticket = Ticket_ctor (ticketCounter s + 1) reg (getType v)
                                      (ps_floor slot) (ps_id slot) now_ticket
                       in Inr (VehicleParked (tk_id ticket),
                               s\<lparr>floors := floors',
                                 activeTickets := (activeTickets s)(reg \<mapsto> ticket),
                                 ticketCounter := ticketCounter s + 1\<rparr>)))))"

text \<open>
  The billing of \<open>unparkVehicle\<close>, lines 255 to 258: the ticket is closed at \<open>now\<close>,
  the hours are rounded up, and the rate is chosen between the two rate constants by
  the ticket's stored type. The subtraction \<open>exitTime - entryTime\<close> inside
  \<open>getParkingDuration\<close> overflows when the difference leaves the \<open>int64\<close> range.
\<close>

definition billing_rate :: "VehicleType \<Rightarrow> real" where
  "billing_rate ty = (if ty = CAR then CAR_HOURLY_RATE else BIKE_HOURLY_RATE)"

definition billing_hours :: "Ticket \<Rightarrow> time_point \<Rightarrow> real" where
  "billing_hours t now = of_int \<lceil>getParkingDuration (ticket_exit t now) now\<rceil>"

definition billing_charge :: "Ticket \<Rightarrow> time_point \<Rightarrow> real" where
  "billing_charge t now =
     (let hours = billing_hours t now;
          rate = billing_rate (vehicleType (ticket_exit t now))
      in min (hours * rate) DAILY_MAX)"

definition unparkVehicle ::
  "ParkingSystem \<Rightarrow> string \<Rightarrow> time_point \<Rightarrow> fault + (report \<times> ParkingSystem)" where
  "unparkVehicle s reg now =
     (case activeTickets s reg of
        None \<Rightarrow> Inr (VehicleNotFound, s)
      | Some ticket \<Rightarrow>
          (let charge = billing_charge ticket now;
               i = tk_floor ticket - 1
           in if \<not> in_int64_range (now - entryTime ticket) then Inl SignedOverflow
              else if i < 0 \<or> int (length (floors s)) \<le> i then Inl IndexOutOfRange
              else
                (case vacateSlot (floors s ! nat i) (tk_slotId ticket) of
                   Inl e \<Rightarrow> Inl e
                 | Inr (v, f') \<Rightarrow>
                     Inr (ParkingCharge charge,
                          s\<lparr>floors := (floors s)[nat i := f'],
                            activeTickets := (activeTickets s)(reg := None),
                            totalRevenue := totalRevenue s + charge\<rparr>))))"

text \<open>The loop of \<open>displayStatus\<close> with its two accumulators.\<close>

definition in_int_range :: "int \<Rightarrow> bool" where
  "in_int_range x \<longleftrightarrow> INT_MIN \<le> x \<and> x \<le> INT_MAX"

fun displayStatus_floors :: "ParkingFloor list \<Rightarrow> int \<Rightarrow> int \<Rightarrow> fault + (int \<times> int)" where
  "displayStatus_floors [] tot occ = Inr (tot, occ)"
| "displayStatus_floors (f # rest) tot occ =
     (if in_int_range (tot + getTotalSlots f) \<and> in_int_range (occ + getOccupiedSlots f)
      then displayStatus_floors rest (tot + getTotalSlots f) (occ + getOccupiedSlots f)
      else Inl SignedOverflow)"

definition displayStatus :: "ParkingSystem \<Rightarrow> fault + report" where
  "displayStatus s =
     (case displayStatus_floors (floors s) 0 0 of
        Inl e \<Rightarrow> Inl e
      | Inr (tot, occ) \<Rightarrow>
          if in_int_range (tot - occ) then Inr (StatusReport tot occ (tot - occ))
          else Inl SignedOverflow)"

subsection \<open>The menu loop\<close>

text \<open>
  One iteration of the loop of \<open>main\<close> for the choices 1, 2 and 3, with the inputs the
  chosen operation reads. Any other choice leaves the loop.
\<close>

datatype operation =
    Park int string time_point time_point
  | Unpark string time_point
  | Status

fun step :: "ParkingSystem \<Rightarrow> operation \<Rightarrow> fault + (report \<times> ParkingSystem)" where
  "step s (Park typeChoice reg now_slot now_ticket) =
     parkVehicle s typeChoice reg now_slot now_ticket"
| "step s (Unpark reg now) = unparkVehicle s reg now"
| "step s Status =
     (case displayStatus s of Inl e \<Rightarrow> Inl e | Inr out \<Rightarrow> Inr (out, s))"

text \<open>A run returns, for each operation, what it printed and the state it left.\<close>

fun run :: "ParkingSystem \<Rightarrow> operation list \<Rightarrow> fault + (report \<times> ParkingSystem) list" where
  "run s [] = Inr []"
| "run s (op # ops) =
     (case step s op of
        Inl e \<Rightarrow> Inl e
      | Inr (out, s') \<Rightarrow>
          (case run s' ops of
             Inl e \<Rightarrow> Inl e
           | Inr tr \<Rightarrow> Inr ((out, s') # tr)))"

definition final_state :: "ParkingSystem \<Rightarrow> (report \<times> ParkingSystem) list \<Rightarrow> ParkingSystem" where
  "final_state s tr = (if tr = [] then s else snd (last tr))"

section \<open>Notions used in the statements\<close>

text \<open>
  What a successful \<open>ParkingSlot::parkVehicle\<close> leaves in a slot, the number of
  occupied slots of a floor, and the totals of a facility.
\<close>

definition occupy :: "ParkingSlot \<Rightarrow> Vehicle \<Rightarrow> time_point \<Rightarrow> ParkingSlot" where
  "occupy slot v now = slot\<lparr>currentVehicle := Some v, ps_status := OCCUPIED, occupiedSince := now\<rparr>"

definition occupied_count :: "ParkingFloor \<Rightarrow> int" where
  "occupied_count f = int (length (filter (\<lambda>sl. ps_status sl = OCCUPIED) (slots f)))"

definition total_slots :: "ParkingSystem \<Rightarrow> int" where
  "total_slots s = sum_list (map (\<lambda>f. int (length (slots f))) (floors s))"

definition total_occupied :: "ParkingSystem \<Rightarrow> int" where
  "total_occupied s = sum_list (map occupied_count (floors s))"

text \<open>
  The slot with a given floor number and slot id: the first floor with that number,
  and in it the first slot with that id.
\<close>

definition slot_at :: "ParkingSystem \<Rightarrow> int \<Rightarrow> int \<Rightarrow> ParkingSlot option" where
  "slot_at s fl sid =
     (case find (\<lambda>f. floorNumber f = fl) (floors s) of
        None \<Rightarrow> None
      | Some f \<Rightarrow> find (\<lambda>sl. ps_id sl = sid) (slots f))"

text \<open>
  Of the reports of a run: the ticket ids that the successful parks printed and the
  charge of each report (nothing unless it is a charge). The revenue before a run and
  after each of its operations. A sequence of unpark operations, each with its
  registration and its clock reading.
\<close>

fun ticket_ids :: "report list \<Rightarrow> int list" where
  "ticket_ids [] = []"
| "ticket_ids (VehicleParked n # rs) = n # ticket_ids rs"
| "ticket_ids (r # rs) = ticket_ids rs"

fun charge_of :: "report \<Rightarrow> real" where
  "charge_of (ParkingCharge c) = c"
| "charge_of r = 0"

definition revenue_trace :: "ParkingSystem \<Rightarrow> (report \<times> ParkingSystem) list \<Rightarrow> real list" where
  "revenue_trace s tr = totalRevenue s # map (\<lambda>x. totalRevenue (snd x)) tr"

definition unparks :: "(string \<times> time_point) list \<Rightarrow> operation list" where
  "unparks ups = map (\<lambda>(reg, now). Unpark reg now) ups"

section \<open>Notions used in the proofs\<close>

text \<open>
  The \<open>double\<close> that \<open>getParkingDuration\<close> returns for a closed ticket whose exit
  is \<open>ticks\<close> nanoseconds after its entry.
\<close>

definition duration_hours :: "int \<Rightarrow> real" where
  "duration_hours ticks = to_double (duration_double_count ticks / 3600)"

text \<open>
  Positions in the vector of floors (floor index, slot index), the effect of
  parking and of vacating at a position, and the position the two nested loops of
  park find: the first floor with a compatible slot, and its first compatible slot.
\<close>

definition slot_nth :: "ParkingFloor list \<Rightarrow> nat \<Rightarrow> nat \<Rightarrow> ParkingSlot" where
  "slot_nth fs k i = slots (fs ! k) ! i"

definition valid_pos :: "ParkingFloor list \<Rightarrow> nat \<Rightarrow> nat \<Rightarrow> bool" where
  "valid_pos fs k i \<longleftrightarrow> k < length fs \<and> i < length (slots (fs ! k))"

definition floor_park_at :: "ParkingFloor \<Rightarrow> nat \<Rightarrow> Vehicle \<Rightarrow> time_point \<Rightarrow> ParkingFloor" where
  "floor_park_at f i v now =
     f\<lparr>slots := (slots f)[i := occupy (slots f ! i) v now],
       occupiedSlots := occupiedSlots f + 1\<rparr>"

definition floor_vacate_at :: "ParkingFloor \<Rightarrow> nat \<Rightarrow> ParkingFloor" where
  "floor_vacate_at f i =
     f\<lparr>slots := (slots f)[i := snd (vacate (slots f ! i))],
       occupiedSlots := occupiedSlots f - 1\<rparr>"

definition park_at :: "ParkingFloor list \<Rightarrow> nat \<Rightarrow> nat \<Rightarrow> Vehicle \<Rightarrow> time_point \<Rightarrow> ParkingFloor list" where
  "park_at fs k i v now = fs[k := floor_park_at (fs ! k) i v now]"

definition vacate_at :: "ParkingFloor list \<Rightarrow> nat \<Rightarrow> nat \<Rightarrow> ParkingFloor list" where
  "vacate_at fs k i = fs[k := floor_vacate_at (fs ! k) i]"

fun first_pos :: "ParkingFloor list \<Rightarrow> VehicleType \<Rightarrow> (nat \<times> nat) option" where
  "first_pos [] ty = None"
| "first_pos (f # fs) ty =
     (case findAvailableSlot f ty of
        Some i \<Rightarrow> Some (0, i)
      | None \<Rightarrow> map_option (\<lambda>(k, i). (Suc k, i)) (first_pos fs ty))"

definition parked_state ::
  "ParkingSystem \<Rightarrow> nat \<Rightarrow> nat \<Rightarrow> Vehicle \<Rightarrow> string \<Rightarrow> time_point \<Rightarrow> time_point \<Rightarrow> ParkingSystem" where
  "parked_state s k i v reg now_slot now_ticket =
     s\<lparr>floors := park_at (floors s) k i v now_slot,
       activeTickets := (activeTickets s)(reg \<mapsto>
          Ticket_ctor (ticketCounter s + 1) reg (getType v) (int k + 1) (int i + 1) now_ticket),
       ticketCounter := ticketCounter s + 1\<rparr>"

definition unparked_state ::
  "ParkingSystem \<Rightarrow> nat \<Rightarrow> nat \<Rightarrow> string \<Rightarrow> real \<Rightarrow> ParkingSystem" where
  "unparked_state s k i reg charge =
     s\<lparr>floors := vacate_at (floors s) k i,
       activeTickets := (activeTickets s)(reg := None),
       totalRevenue := totalRevenue s + charge\<rparr>"

text \<open>
  The invariant of the facility. A slot holds a vehicle exactly when it is occupied,
  and then a \<open>Car\<close> or a \<open>Bike\<close> of the slot's allowed type. On each floor the
  slots carry the ids 1, 2, ... in vector order and the floor's number, there are
  fewer than \<open>INT_MAX\<close> of them, and the counter is the number of occupied slots.
  Floors are numbered from 1 in vector order. Every active ticket names an occupied
  slot by floor number and slot id; the vehicle in that slot has the registration
  the ticket is filed under and the type the ticket stores. No two registrations
  hold tickets for the same slot.
\<close>

definition slot_ok :: "ParkingSlot \<Rightarrow> bool" where
  "slot_ok sl \<longleftrightarrow>
     (case currentVehicle sl of
        None \<Rightarrow> ps_status sl = FREE
      | Some v \<Rightarrow>
          ps_status sl = OCCUPIED \<and> getType v = allowedType sl \<and>
          (v = Car (getRegistration v) \<or> v = Bike (getRegistration v)))"

definition floor_ok :: "ParkingFloor \<Rightarrow> bool" where
  "floor_ok f \<longleftrightarrow>
     (\<forall>i<length (slots f). ps_id (slots f ! i) = int i + 1 \<and> ps_floor (slots f ! i) = floorNumber f)
     \<and> int (length (slots f)) < INT_MAX
     \<and> occupiedSlots f = occupied_count f
     \<and> (\<forall>sl\<in>set (slots f). slot_ok sl)"

definition floors_ok :: "ParkingFloor list \<Rightarrow> bool" where
  "floors_ok fs \<longleftrightarrow> (\<forall>k<length fs. floorNumber (fs ! k) = int k + 1 \<and> floor_ok (fs ! k))"

definition ticket_ref :: "ParkingFloor list \<Rightarrow> string \<Rightarrow> Ticket \<Rightarrow> bool" where
  "ticket_ref fs reg t \<longleftrightarrow>
     (\<exists>k i v. valid_pos fs k i \<and> tk_floor t = int k + 1 \<and> tk_slotId t = int i + 1 \<and>
            ps_status (slot_nth fs k i) = OCCUPIED \<and>
            currentVehicle (slot_nth fs k i) = Some v \<and>
            getRegistration v = reg \<and> vehicleType t = getType v)"

definition tickets_ok :: "ParkingSystem \<Rightarrow> bool" where
  "tickets_ok s \<longleftrightarrow>
     (\<forall>reg t. activeTickets s reg = Some t \<longrightarrow> ticket_ref (floors s) reg t) \<and>
     (\<forall>reg reg' t t'. activeTickets s reg = Some t \<longrightarrow> activeTickets s reg' = Some t' \<longrightarrow>
        tk_floor t = tk_floor t' \<longrightarrow> tk_slotId t = tk_slotId t' \<longrightarrow> reg = reg')"

definition facility_inv :: "ParkingSystem \<Rightarrow> bool" where
  "facility_inv s \<longleftrightarrow> floors_ok (floors s) \<and> tickets_ok s"

section \<open>Example states\<close>

text \<open>
  The facility that \<open>ParkingSystem_ctor 2 1 1\<close> builds, and the one with a single
  bike slot that \<open>ParkingSystem_ctor 1 0 1\<close> builds.
\<close>

definition fresh_2_1_1 :: ParkingSystem where
  "fresh_2_1_1 =
     \<lparr>floors =
        [\<lparr>floorNumber = 1,
          slots = [ParkingSlot_ctor 1 1 CAR, ParkingSlot_ctor 2 1 BIKE],
          occupiedSlots = 0\<rparr>,
         \<lparr>floorNumber = 2,
          slots = [ParkingSlot_ctor 1 2 CAR, ParkingSlot_ctor 2 2 BIKE],
          occupiedSlots = 0\<rparr>],
      activeTickets = Map.empty, ticketCounter = 1000, totalRevenue = 0\<rparr>"

definition bikes_only :: ParkingSystem where
  "bikes_only =
     \<lparr>floors =
        [\<lparr>floorNumber = 1, slots = [ParkingSlot_ctor 1 1 BIKE], occupiedSlots = 0\<rparr>],
      activeTickets = Map.empty, ticketCounter = 1000, totalRevenue = 0\<rparr>"

text \<open>
  \<open>fresh_2_1_1\<close> after \<open>Park 1 ''A''\<close> with the clock readings 7190 s and 7200 s
  (in nanoseconds, as every reading); that state after \<open>Park 2 ''B''\<close> with the
  readings 7300 s and 7400 s; and the first state after a second \<open>Park 1 ''A''\<close>
  with the readings 9000 s and 9001 s.
\<close>

definition one_car_parked :: ParkingSystem where
  "one_car_parked =
     \<lparr>floors =
        [\<lparr>floorNumber = 1,
          slots = [occupy (ParkingSlot_ctor 1 1 CAR) (Car ''A'') 7190000000000, ParkingSlot_ctor 2 1 BIKE],
          occupiedSlots = 1\<rparr>,
         \<lparr>floorNumber = 2,
          slots = [ParkingSlot_ctor 1 2 CAR, ParkingSlot_ctor 2 2 BIKE],
          occupiedSlots = 0\<rparr>],
      activeTickets = [''A'' \<mapsto> Ticket_ctor 1001 ''A'' CAR 1 1 7200000000000],
      ticketCounter = 1001, totalRevenue = 0\<rparr>"

definition two_parked :: ParkingSystem where
  "two_parked =
     \<lparr>floors =
        [\<lparr>floorNumber = 1,
          slots = [occupy (ParkingSlot_ctor 1 1 CAR) (Car ''A'') 7190000000000,
                   occupy (ParkingSlot_ctor 2 1 BIKE) (Bike ''B'') 7300000000000],
          occupiedSlots = 2\<rparr>,
         \<lparr>floorNumber = 2,
          slots = [ParkingSlot_ctor 1 2 CAR, ParkingSlot_ctor 2 2 BIKE],
          occupiedSlots = 0\<rparr>],
      activeTickets = [''A'' \<mapsto> Ticket_ctor 1001 ''A'' CAR 1 1 7200000000000,
                       ''B'' \<mapsto> Ticket_ctor 1002 ''B'' BIKE 1 2 7400000000000],
      ticketCounter = 1002, totalRevenue = 0\<rparr>"

definition same_reg_twice :: ParkingSystem where
  "same_reg_twice =
     \<lparr>floors =
        [\<lparr>floorNumber = 1,
          slots = [occupy (ParkingSlot_ctor 1 1 CAR) (Car ''A'') 7190000000000, ParkingSlot_ctor 2 1 BIKE],
          occupiedSlots = 1\<rparr>,
         \<lparr>floorNumber = 2,
          slots = [occupy (ParkingSlot_ctor 1 2 CAR) (Car ''A'') 9000000000000, ParkingSlot_ctor 2 2 BIKE],
          occupiedSlots = 1\<rparr>],
      activeTickets = [''A'' \<mapsto> Ticket_ctor 1002 ''A'' CAR 2 1 9001000000000],
      ticketCounter = 1002, totalRevenue = 0\<rparr>"

section \<open>Rounding to \<open>double\<close>\<close>

text \<open>
  Rounding moves a number by at most half a unit in the last place, that is by at
  most its \<open>2^-53\<close>-th part, and leaves an integer below \<open>2^53\<close> as it is.
\<close>

lemma round_even_error: "\<bar>of_int (round_even y) - y\<bar> \<le> 1 / 2"
proof -
  have "of_int \<lfloor>y\<rfloor> \<le> y" "y < of_int \<lfloor>y\<rfloor> + 1" by linarith+
  then show ?thesis by (auto simp: round_even_def Let_def)
qed

lemma round_even_of_int: "round_even (of_int k) = k"
  by (simp add: round_even_def)

lemma round_even_nonneg: "0 \<le> y \<Longrightarrow> 0 \<le> round_even y"
  by (auto simp: round_even_def Let_def)

lemma to_double_zero: "to_double 0 = 0"
  by (simp add: to_double_def)

lemma to_double_nonneg:
  assumes "0 \<le> x"
  shows "0 \<le> to_double x"
proof (cases "x = 0")
  case True
  then show ?thesis by (simp add: to_double_def)
next
  case False
  let ?u = "2 powr of_int (max \<lfloor>log 2 \<bar>x\<bar>\<rfloor> (- 1022) - 52) :: real"
  have u: "0 < ?u" by simp
  with assms have "0 \<le> x / ?u" by simp
  then have "0 \<le> round_even (x / ?u)" by (rule round_even_nonneg)
  with u have "0 \<le> ?u * of_int (round_even (x / ?u))" by simp
  with False show ?thesis by (simp add: to_double_def Let_def)
qed

lemma to_double_error:
  assumes "2 powr (- 1022) \<le> \<bar>x\<bar>"
  shows "\<bar>to_double x - x\<bar> \<le> \<bar>x\<bar> / 2 ^ 53"
proof -
  have pos: "0 < \<bar>x\<bar>" using assms by (smt (verit) powr_gt_zero)
  then have nz: "x \<noteq> 0" by simp
  define e where "e = \<lfloor>log 2 \<bar>x\<bar>\<rfloor>"
  from pos have "log 2 (2 powr (- 1022)) \<le> log 2 \<bar>x\<bar>"
    using assms by (subst log_le_cancel_iff) simp_all
  then have "- 1022 \<le> log 2 \<bar>x\<bar>" by simp
  then have "- 1022 \<le> e" unfolding e_def by linarith
  then have m: "max e (- 1022) = e" by simp
  define u :: real where "u = 2 powr of_int (e - 52)"
  have u: "0 < u" by (simp add: u_def)
  have td: "to_double x = u * of_int (round_even (x / u))"
    using nz m by (simp add: to_double_def Let_def e_def [symmetric] u_def)
  have "to_double x - x = u * (of_int (round_even (x / u)) - x / u)"
    using u by (simp add: td algebra_simps)
  then have "\<bar>to_double x - x\<bar> = u * \<bar>of_int (round_even (x / u)) - x / u\<bar>"
    using u by (simp add: abs_mult)
  also have "\<dots> \<le> u * (1 / 2)"
    using u round_even_error [of "x / u"] by (intro mult_left_mono) simp_all
  finally have a: "\<bar>to_double x - x\<bar> \<le> u / 2" by simp
  from pos have "2 powr of_int e \<le> \<bar>x\<bar>"
    using floor_log_eq_powr_iff [of "\<bar>x\<bar>" 2 e] by (simp add: e_def)
  moreover have "u = 2 powr of_int e / 2 ^ 52"
    by (simp add: u_def powr_diff)
  ultimately have "u / 2 \<le> \<bar>x\<bar> / 2 ^ 53" by simp
  with a show ?thesis by linarith
qed

lemma to_double_of_int:
  assumes "\<bar>k\<bar> < 2 ^ 53"
  shows "to_double (of_int k) = of_int k"
proof (cases "k = 0")
  case True
  then show ?thesis by (simp add: to_double_def)
next
  case False
  let ?x = "of_int k :: real"
  define e where "e = \<lfloor>log 2 \<bar>?x\<bar>\<rfloor>"
  from False have "1 \<le> \<bar>k\<bar>" by simp
  then have "(1::real) \<le> of_int \<bar>k\<bar>" by (simp only: of_int_1_le_iff)
  then have one: "1 \<le> \<bar>?x\<bar>" by simp
  then have "0 \<le> log 2 \<bar>?x\<bar>" by simp
  then have e0: "0 \<le> e" unfolding e_def by simp
  from assms have "(of_int \<bar>k\<bar> :: real) < of_int (2 ^ 53)" by (simp only: of_int_less_iff)
  then have "\<bar>?x\<bar> < 2 ^ 53" by simp
  then have "\<bar>?x\<bar> < 2 powr 53" by simp
  with one have "log 2 \<bar>?x\<bar> < 53"
    by (subst log_less_iff) simp_all
  then have e52: "e \<le> 52" unfolding e_def by linarith
  from e0 have m: "max e (- 1022) = e" by simp
  define j where "j = nat (52 - e)"
  have "(of_int (e - 52) :: real) = - real j" using e52 by (simp add: j_def)
  then have "(2::real) powr of_int (e - 52) = 2 powr (- real j)" by (simp only:)
  then have u: "(2::real) powr of_int (e - 52) = 1 / 2 ^ j"
    by (simp add: powr_minus powr_realpow inverse_eq_divide)
  have "?x / (1 / 2 ^ j) = of_int (k * 2 ^ j)" by simp
  then have "round_even (?x / (1 / 2 ^ j)) = k * 2 ^ j"
    by (simp only: round_even_of_int)
  then have "(1 / 2 ^ j) * of_int (round_even (?x / (1 / 2 ^ j))) = ?x" by simp
  with False m u show ?thesis
    by (simp add: to_double_def Let_def e_def [symmetric])
qed

text \<open>
  The duration in hours. For a stay of at most 1000 hours, forwards or backwards,
  the three roundings move the quotient by less than the part of an hour that one
  nanosecond is, so the hours rounded up are those of the exact quotient. A longer
  stay forwards comes out above 125 hours.
\<close>

lemma tiny_le: "(2::real) powr (- 1022) \<le> 1 / 7200000000000000"
proof -
  have "(2::real) powr (- 1022) \<le> 2 powr (- 53)" by (rule powr_mono) simp_all
  also have "\<dots> = 1 / 2 ^ 53" by (simp add: powr_minus inverse_eq_divide)
  also have "\<dots> \<le> 1 / 7200000000000000" by simp
  finally show ?thesis .
qed

lemma to_double_ge_half:
  assumes "2 powr (- 1022) \<le> x"
  shows "x / 2 \<le> to_double x"
proof -
  have "(0::real) < 2 powr (- 1022)" by simp
  with assms have pos: "0 < x" by linarith
  with assms have "2 powr (- 1022) \<le> \<bar>x\<bar>" by simp
  from to_double_error [OF this] pos have "\<bar>to_double x - x\<bar> \<le> x / 2 ^ 53" by simp
  moreover from pos have "x / 2 ^ 53 \<le> x / 2" by simp
  ultimately show ?thesis by linarith
qed

lemma duration_hours_multiple:
  assumes "\<bar>k\<bar> \<le> 1000"
  shows "duration_hours (3600000000000 * k) = of_int k"
proof -
  have a: "to_double (of_int (3600000000000 * k)) = of_int (3600000000000 * k)"
    using assms by (intro to_double_of_int) simp
  have "(of_int (3600000000000 * k) :: real) / 1000000000 = of_int (3600 * k)" by simp
  moreover have "to_double (of_int (3600 * k)) = of_int (3600 * k)"
    using assms by (intro to_double_of_int) simp
  ultimately have b: "to_double (of_int (3600000000000 * k) / 1000000000) = of_int (3600 * k)"
    by (simp only:)
  have "(of_int (3600 * k) :: real) / 3600 = of_int k" by simp
  moreover have "to_double (of_int k) = of_int k"
    using assms by (intro to_double_of_int) simp
  ultimately have c: "to_double (of_int (3600 * k) / 3600) = of_int k" by (simp only:)
  show ?thesis unfolding duration_hours_def duration_double_count_def a b c ..
qed

lemma duration_hours_error:
  assumes n: "\<bar>n\<bar> \<le> 3600000000000000" and nz: "n \<noteq> 0"
  shows "\<bar>duration_hours n - of_int n / 3600000000000\<bar> < 1 / 3600000000000"
proof -
  define q :: real where "q = of_int n / 3600000000000"
  define x2 :: real where "x2 = of_int n / 1000000000"
  define d2 where "d2 = to_double x2"
  define x3 where "x3 = d2 / 3600"
  define d3 where "d3 = to_double x3"
  from n have "to_double (of_int n) = of_int n" by (intro to_double_of_int) simp
  then have dh: "duration_hours n = d3"
    by (simp add: duration_hours_def duration_double_count_def d3_def x3_def d2_def x2_def)
  from nz have "1 \<le> \<bar>n\<bar>" by simp
  then have "(1::real) \<le> of_int \<bar>n\<bar>" by (simp only: of_int_1_le_iff)
  then have n1: "1 \<le> \<bar>of_int n :: real\<bar>" by simp
  from n have "(of_int \<bar>n\<bar> :: real) \<le> of_int 3600000000000000" by (simp only: of_int_le_iff)
  then have n2: "\<bar>of_int n :: real\<bar> \<le> 3600000000000000" by simp
  have x2q: "x2 = 3600 * q" by (simp add: x2_def q_def)
  from n1 have q_lo: "1 / 3600000000000 \<le> \<bar>q\<bar>" by (simp add: q_def)
  from n2 have q_hi: "\<bar>q\<bar> \<le> 1000" by (simp add: q_def)
  from q_lo have "2 powr (- 1022) \<le> \<bar>x2\<bar>" using tiny_le by (simp add: x2q)
  from to_double_error [OF this] have e2: "\<bar>d2 - x2\<bar> \<le> \<bar>x2\<bar> / 2 ^ 53"
    by (simp add: d2_def)
  have "x3 - q = (d2 - x2) / 3600" by (simp add: x3_def x2q)
  then have "\<bar>x3 - q\<bar> = \<bar>d2 - x2\<bar> / 3600" by (simp only: abs_divide)
  moreover have "\<bar>x2\<bar> = 3600 * \<bar>q\<bar>" by (simp add: x2q abs_mult)
  with e2 have "\<bar>d2 - x2\<bar> \<le> 3600 * \<bar>q\<bar> / 2 ^ 53" by simp
  ultimately have e2': "\<bar>x3 - q\<bar> \<le> \<bar>q\<bar> / 2 ^ 53" by simp
  have small: "\<bar>q\<bar> / 2 ^ 53 \<le> \<bar>q\<bar> / 2" by simp
  from e2' small have x3_lo: "\<bar>q\<bar> / 2 \<le> \<bar>x3\<bar>" by linarith
  from e2' have x3_hi: "\<bar>x3\<bar> \<le> \<bar>q\<bar> + \<bar>q\<bar> / 2 ^ 53" by linarith
  from x3_lo q_lo tiny_le have "2 powr (- 1022) \<le> \<bar>x3\<bar>" by simp
  from to_double_error [OF this] have e3: "\<bar>d3 - x3\<bar> \<le> \<bar>x3\<bar> / 2 ^ 53"
    by (simp add: d3_def)
  from x3_hi have "\<bar>x3\<bar> / 2 ^ 53 \<le> (\<bar>q\<bar> + \<bar>q\<bar> / 2 ^ 53) / 2 ^ 53"
    by (simp add: divide_right_mono)
  with e3 e2' have "\<bar>d3 - q\<bar> \<le> \<bar>q\<bar> / 2 ^ 53 + (\<bar>q\<bar> + \<bar>q\<bar> / 2 ^ 53) / 2 ^ 53"
    by linarith
  also have "\<dots> = \<bar>q\<bar> * (1 / 2 ^ 53 + (1 + 1 / 2 ^ 53) / 2 ^ 53)"
    by (simp add: algebra_simps)
  also have "\<dots> \<le> 1000 * (1 / 2 ^ 53 + (1 + 1 / 2 ^ 53) / 2 ^ 53)"
    using q_hi by (intro mult_right_mono) simp_all
  also have "\<dots> < 1 / 3600000000000" by simp
  finally show ?thesis by (simp add: dh q_def)
qed

lemma duration_hours_ceiling:
  assumes n: "\<bar>n\<bar> \<le> 3600000000000000"
  shows "\<lceil>duration_hours n\<rceil> = \<lceil>of_int n / (3600000000000 :: real)\<rceil>"
proof (cases "3600000000000 dvd n")
  case True
  then obtain k where k: "n = 3600000000000 * k" ..
  with n have "\<bar>k\<bar> \<le> 1000" by simp
  from duration_hours_multiple [OF this] k show ?thesis by simp
next
  case False
  then have nz: "n \<noteq> 0" by auto
  define k where "k = \<lceil>of_int n / (3600000000000 :: real)\<rceil>"
  have "of_int n / (3600000000000 :: real) \<le> of_int k"
    "of_int k - 1 < of_int n / (3600000000000 :: real)"
    unfolding k_def by linarith+
  then have "(of_int n :: real) \<le> of_int (3600000000000 * k)"
    "(of_int (3600000000000 * (k - 1)) :: real) < of_int n"
    by (simp_all add: field_simps)
  then have "n \<le> 3600000000000 * k" "3600000000000 * (k - 1) < n"
    by (simp_all only: of_int_le_iff of_int_less_iff)
  moreover from False have "n \<noteq> 3600000000000 * k" by auto
  ultimately have "n \<le> 3600000000000 * k - 1" "3600000000000 * (k - 1) + 1 \<le> n"
    by linarith+
  then have "(of_int n :: real) \<le> of_int (3600000000000 * k - 1)"
    "(of_int (3600000000000 * (k - 1) + 1) :: real) \<le> of_int n"
    by (simp_all only: of_int_le_iff)
  then have q: "of_int n / (3600000000000 :: real) \<le> of_int k - 1 / 3600000000000"
    "of_int k - 1 + 1 / 3600000000000 \<le> of_int n / (3600000000000 :: real)"
    by (simp_all add: field_simps)
  from duration_hours_error [OF n nz] q
  have "of_int k - 1 < duration_hours n" "duration_hours n \<le> of_int k"
    by linarith+
  then have "\<lceil>duration_hours n\<rceil> = k" by (intro ceiling_unique)
  then show ?thesis by (simp add: k_def)
qed

lemma duration_hours_large:
  assumes "3600000000000000 \<le> n"
  shows "125 \<le> duration_hours n"
proof -
  define x1 :: real where "x1 = of_int n"
  define d1 where "d1 = to_double x1"
  define d2 where "d2 = to_double (d1 / 1000000000)"
  define d3 where "d3 = to_double (d2 / 3600)"
  from assms have "(of_int 3600000000000000 :: real) \<le> of_int n" by (simp only: of_int_le_iff)
  then have x1: "3600000000000000 \<le> x1" by (simp add: x1_def)
  have t: "(2::real) powr (- 1022) \<le> 1" using tiny_le by simp
  from x1 t have "2 powr (- 1022) \<le> x1" by simp
  from to_double_ge_half [OF this] x1 have a: "1800000000000000 \<le> d1" by (simp add: d1_def)
  with t have "2 powr (- 1022) \<le> d1 / 1000000000" by simp
  from to_double_ge_half [OF this] a have b: "900000 \<le> d2" by (simp add: d2_def)
  with t have "2 powr (- 1022) \<le> d2 / 3600" by simp
  from to_double_ge_half [OF this] b have "125 \<le> d3" by (simp add: d3_def)
  then show ?thesis
    by (simp add: duration_hours_def duration_double_count_def d3_def d2_def d1_def x1_def)
qed

lemma duration_hours_nonneg: "0 \<le> n \<Longrightarrow> 0 \<le> duration_hours n"
  by (simp add: duration_hours_def duration_double_count_def to_double_nonneg)

lemma capped_charge:
  assumes "- 3600000000000000 \<le> n" and "r = 10 \<or> r = 20"
  shows "min (of_int \<lceil>duration_hours n\<rceil> * r) (200 :: real) =
         min (of_int \<lceil>of_int n / (3600000000000 :: real)\<rceil> * r) 200"
proof (cases "n \<le> 3600000000000000")
  case True
  with assms(1) have "\<bar>n\<bar> \<le> 3600000000000000" by simp
  from duration_hours_ceiling [OF this] show ?thesis by simp
next
  case False
  then have big: "3600000000000000 \<le> n" by simp
  from duration_hours_large [OF big] have "125 \<le> \<lceil>duration_hours n\<rceil>"
    by (simp add: le_ceiling_iff)
  then have h1: "(125::real) \<le> of_int \<lceil>duration_hours n\<rceil>" by simp
  from big have "(of_int 3600000000000000 :: real) \<le> of_int n" by (simp only: of_int_le_iff)
  then have "(1000::real) \<le> of_int n / 3600000000000" by simp
  then have "1000 \<le> \<lceil>of_int n / (3600000000000 :: real)\<rceil>" by (simp add: le_ceiling_iff)
  then have h2: "(1000::real) \<le> of_int \<lceil>of_int n / (3600000000000 :: real)\<rceil>" by simp
  from assms(2) h1 h2 show ?thesis by auto
qed

lemma billing_charge_eq:
  "billing_charge t now =
     min (of_int \<lceil>duration_hours (now - entryTime t)\<rceil> *
          (if vehicleType t = CAR then 20 else 10)) 200"
  by (simp add: billing_charge_def billing_hours_def billing_rate_def getParkingDuration_def
      duration_hours_def ticket_exit_def CAR_HOURLY_RATE_def BIKE_HOURLY_RATE_def
      DAILY_MAX_def Let_def)

lemma billing_charge_exact:
  assumes "- 3600000000000000 \<le> now - entryTime t"
  shows "billing_charge t now =
     min (of_int \<lceil>of_int (now - entryTime t) / (3600000000000 :: real)\<rceil> *
          (if vehicleType t = CAR then 20 else 10)) 200"
  unfolding billing_charge_eq
  by (rule capped_charge [OF assms]) simp

lemma billing_charge_nonneg:
  assumes "entryTime t \<le> now"
  shows "0 \<le> billing_charge t now"
proof -
  from assms have "0 \<le> duration_hours (now - entryTime t)"
    by (intro duration_hours_nonneg) simp
  then have "0 \<le> \<lceil>duration_hours (now - entryTime t)\<rceil>"
    by (simp add: le_ceiling_iff)
  then have "0 \<le> (of_int \<lceil>duration_hours (now - entryTime t)\<rceil> :: real)" by simp
  then have "0 \<le> of_int \<lceil>duration_hours (now - entryTime t)\<rceil> *
      (if vehicleType t = CAR then 20 else 10 :: real)"
    by (intro mult_nonneg_nonneg) simp_all
  then show ?thesis by (simp add: billing_charge_eq)
qed





section \<open>Slots and floors\<close>

lemma find_None_iff:
  "findAvailableSlot_from ss ty = None \<longleftrightarrow> (\<forall>sl\<in>set ss. \<not> isCompatible sl ty)"
  by (induction ss) auto

lemma find_Some:
  "findAvailableSlot_from ss ty = Some i \<Longrightarrow>
     i < length ss \<and> isCompatible (ss ! i) ty \<and> (\<forall>j<i. \<not> isCompatible (ss ! j) ty)"
proof (induction ss arbitrary: i)
  case Nil
  then show ?case by simp
next
  case (Cons sl ss)
  show ?case
  proof (cases "isCompatible sl ty")
    case True
    with Cons.prems show ?thesis by simp
  next
    case False
    with Cons.prems obtain i' where i': "findAvailableSlot_from ss ty = Some i'" "i = Suc i'"
      by auto
    from Cons.IH [OF i'(1)] False i'(2) show ?thesis
      by (auto simp: less_Suc_eq_0_disj)
  qed
qed

lemma park_slots_first_id:
  "i < length ss \<Longrightarrow> isCompatible (ss ! i) (getType v) \<Longrightarrow>
   \<forall>j<i. ps_id (ss ! j) \<noteq> ps_id (ss ! i) \<Longrightarrow>
   parkVehicle_slots ss (ps_id (ss ! i)) (Some v) now = Inr (True, ss[i := occupy (ss ! i) v now])"
proof (induction ss arbitrary: i)
  case Nil
  then show ?case by simp
next
  case (Cons sl ss)
  show ?case
  proof (cases i)
    case 0
    with Cons.prems show ?thesis
      by (simp add: slot_parkVehicle_def occupy_def)
  next
    case (Suc i')
    with Cons.prems have ne: "ps_id sl \<noteq> ps_id (ss ! i')" by auto
    from Suc Cons.prems have "i' < length ss" "isCompatible (ss ! i') (getType v)"
      "\<forall>j<i'. ps_id (ss ! j) \<noteq> ps_id (ss ! i')"
      by auto
    from Cons.IH [OF this] ne Suc show ?thesis by simp
  qed
qed

lemma floor_park_found:
  assumes "findAvailableSlot f (getType v) = Some i"
    and "\<forall>j<length (slots f). ps_id (slots f ! j) = int j + 1"
    and "occupiedSlots f \<noteq> INT_MAX"
  shows "floor_parkVehicle f (ps_id (slots f ! i)) (Some v) now = Inr (True, floor_park_at f i v now)"
proof -
  from assms(1) have i: "i < length (slots f)" "isCompatible (slots f ! i) (getType v)"
    by (auto simp: findAvailableSlot_def dest: find_Some)
  from i(1) assms(2) have "\<forall>j<i. ps_id (slots f ! j) \<noteq> ps_id (slots f ! i)" by auto
  from park_slots_first_id [OF i this] assms(3) show ?thesis
    by (simp add: floor_parkVehicle_def floor_park_at_def)
qed

lemma occupied_count_le: "occupied_count f \<le> int (length (slots f))"
  by (simp add: occupied_count_def)

lemma filter_length_update:
  "i < length xs \<Longrightarrow>
   int (length (filter P (xs[i := x]))) =
     int (length (filter P xs)) + (if P x then 1 else 0) - (if P (xs ! i) then 1 else 0)"
proof (induction xs arbitrary: i)
  case Nil
  then show ?case by simp
next
  case (Cons a xs)
  show ?case
  proof (cases i)
    case 0
    then show ?thesis by simp
  next
    case (Suc j)
    with Cons.prems have "j < length xs" by simp
    from Cons.IH [OF this] Suc show ?thesis by (auto split: if_splits)
  qed
qed

lemma occupied_count_free_slot:
  assumes "i < length (slots f)" "ps_status (slots f ! i) \<noteq> OCCUPIED"
  shows "occupied_count f < int (length (slots f))"
proof -
  from assms(1) have "slots f ! i \<in> set (slots f)" by simp
  from length_filter_less [OF this, of "\<lambda>sl. ps_status sl = OCCUPIED"] assms(2)
  show ?thesis by (simp add: occupied_count_def)
qed

lemma floor_ok_park:
  assumes ok: "floor_ok f" and i: "i < length (slots f)"
    and c: "isCompatible (slots f ! i) (getType v)"
    and cls: "v = Car (getRegistration v) \<or> v = Bike (getRegistration v)"
  shows "floor_ok (floor_park_at f i v now)"
proof -
  let ?ss = "slots f" and ?f' = "floor_park_at f i v now"
  have s': "slots ?f' = ?ss[i := occupy (?ss ! i) v now]" "floorNumber ?f' = floorNumber f"
    "occupiedSlots ?f' = occupiedSlots f + 1"
    by (simp_all add: floor_park_at_def)
  have a: "\<forall>j<length (slots ?f'). ps_id (slots ?f' ! j) = int j + 1 \<and>
             ps_floor (slots ?f' ! j) = floorNumber ?f'"
    using ok i by (auto simp: s' floor_ok_def nth_list_update occupy_def)
  have b: "int (length (slots ?f')) < INT_MAX"
    using ok by (simp add: s' floor_ok_def)
  from c have "ps_status (?ss ! i) \<noteq> OCCUPIED" by (simp add: isCompatible_def)
  with i have "occupied_count ?f' = occupied_count f + 1"
    by (simp add: occupied_count_def s' filter_length_update occupy_def)
  with ok have d: "occupiedSlots ?f' = occupied_count ?f'"
    by (simp add: s' floor_ok_def)
  have e: "\<forall>sl\<in>set (slots ?f'). slot_ok sl"
  proof
    fix sl
    assume sl: "sl \<in> set (slots ?f')"
    from sl have "sl = occupy (?ss ! i) v now \<or> sl \<in> set ?ss"
      unfolding s' using set_update_subset_insert by fastforce
    then show "slot_ok sl"
    proof
      assume "sl = occupy (?ss ! i) v now"
      with c cls show ?thesis by (auto simp: occupy_def isCompatible_def slot_ok_def)
    next
      assume "sl \<in> set ?ss"
      with ok show ?thesis by (simp add: floor_ok_def)
    qed
  qed
  from a b d e show ?thesis unfolding floor_ok_def by blast
qed

lemma floor_ok_vacate:
  assumes ok: "floor_ok f" and i: "i < length (slots f)"
    and c: "ps_status (slots f ! i) = OCCUPIED"
  shows "floor_ok (floor_vacate_at f i)"
proof -
  let ?ss = "slots f" and ?f' = "floor_vacate_at f i"
  have s': "slots ?f' = ?ss[i := snd (vacate (?ss ! i))]" "floorNumber ?f' = floorNumber f"
    "occupiedSlots ?f' = occupiedSlots f - 1"
    by (simp_all add: floor_vacate_at_def)
  have a: "\<forall>j<length (slots ?f'). ps_id (slots ?f' ! j) = int j + 1 \<and>
             ps_floor (slots ?f' ! j) = floorNumber ?f'"
    using ok i by (auto simp: s' floor_ok_def nth_list_update vacate_def)
  have b: "int (length (slots ?f')) < INT_MAX"
    using ok by (simp add: s' floor_ok_def)
  from i c have "occupied_count ?f' = occupied_count f - 1"
    by (simp add: occupied_count_def s' filter_length_update vacate_def)
  with ok have d: "occupiedSlots ?f' = occupied_count ?f'"
    by (simp add: s' floor_ok_def)
  have e: "\<forall>sl\<in>set (slots ?f'). slot_ok sl"
  proof
    fix sl
    assume sl: "sl \<in> set (slots ?f')"
    from sl have "sl = snd (vacate (?ss ! i)) \<or> sl \<in> set ?ss"
      unfolding s' using set_update_subset_insert by fastforce
    then show "slot_ok sl"
    proof
      assume "sl = snd (vacate (?ss ! i))"
      then show ?thesis by (simp add: vacate_def slot_ok_def)
    next
      assume "sl \<in> set ?ss"
      with ok show ?thesis by (simp add: floor_ok_def)
    qed
  qed
  from a b d e show ?thesis unfolding floor_ok_def by blast
qed


section \<open>The constructors\<close>

lemma emplace_slots_result:
  "emplace_slots n i fl ty acc = Inr (j, ss) \<Longrightarrow> i \<le> INT_MAX \<Longrightarrow>
     j = i + int n \<and> i + int n \<le> INT_MAX \<and>
     ss = acc @ map (\<lambda>m. ParkingSlot_ctor (i + int m) fl ty) [0..<n]"
proof (induction n arbitrary: i acc)
  case 0
  then show ?case by simp
next
  case (Suc n)
  from Suc.prems have ne: "i \<noteq> INT_MAX"
    and r: "emplace_slots n (i + 1) fl ty (acc @ [ParkingSlot_ctor i fl ty]) = Inr (j, ss)"
    by (auto split: if_splits)
  from ne Suc.prems(2) have "i + 1 \<le> INT_MAX" by simp
  from Suc.IH [OF r this]
  have "j = i + 1 + int n" "i + 1 + int n \<le> INT_MAX"
    "ss = (acc @ [ParkingSlot_ctor i fl ty]) @ map (\<lambda>m. ParkingSlot_ctor (i + 1 + int m) fl ty) [0..<n]"
    by simp_all
  moreover have "map (\<lambda>m. ParkingSlot_ctor (i + int m) fl ty) [0..<Suc n] =
      ParkingSlot_ctor i fl ty # map (\<lambda>m. ParkingSlot_ctor (i + 1 + int m) fl ty) [0..<n]"
    by (simp only: map_upt_Suc) (simp add: algebra_simps)
  ultimately show ?case by simp
qed

lemma floor_ctor_result:
  assumes "ParkingFloor_ctor fl c b = Inr f"
  shows "floorNumber f = fl" "occupiedSlots f = 0"
    "slots f = map (\<lambda>m. ParkingSlot_ctor (1 + int m) fl CAR) [0..<nat c] @
               map (\<lambda>m. ParkingSlot_ctor (1 + int (nat c) + int m) fl BIKE) [0..<nat b]"
    "1 + int (nat c) + int (nat b) \<le> INT_MAX"
proof -
  from assms obtain i cars j where
    c: "emplace_slots (nat c) 1 fl CAR [] = Inr (i, cars)" and
    b: "emplace_slots (nat b) i fl BIKE cars = Inr (j, slots f)" and
    f: "floorNumber f = fl" "occupiedSlots f = 0"
    by (auto simp: ParkingFloor_ctor_def split: sum.splits prod.splits)
  have "(1::int) \<le> INT_MAX" by (simp add: INT_MAX_def)
  from emplace_slots_result [OF c this]
  have i: "i = 1 + int (nat c)" "i \<le> INT_MAX"
    "cars = map (\<lambda>m. ParkingSlot_ctor (1 + int m) fl CAR) [0..<nat c]"
    by simp_all
  from emplace_slots_result [OF b i(2)] i(1,3) f
  show "floorNumber f = fl" "occupiedSlots f = 0"
    "slots f = map (\<lambda>m. ParkingSlot_ctor (1 + int m) fl CAR) [0..<nat c] @
               map (\<lambda>m. ParkingSlot_ctor (1 + int (nat c) + int m) fl BIKE) [0..<nat b]"
    "1 + int (nat c) + int (nat b) \<le> INT_MAX"
    by simp_all
qed

lemma floor_ctor_ok:
  assumes "ParkingFloor_ctor fl c b = Inr f"
  shows "floor_ok f"
proof -
  note r = floor_ctor_result [OF assms]
  have len: "length (slots f) = nat c + nat b" by (simp add: r(3))
  have a: "\<forall>i<length (slots f). ps_id (slots f ! i) = int i + 1 \<and> ps_floor (slots f ! i) = floorNumber f"
  proof (intro allI impI)
    fix i assume "i < length (slots f)"
    with len show "ps_id (slots f ! i) = int i + 1 \<and> ps_floor (slots f ! i) = floorNumber f"
      by (cases "i < nat c") (simp_all add: r(1) r(3) nth_append ParkingSlot_ctor_def)
  qed
  have b: "int (length (slots f)) < INT_MAX" using r(4) len by simp
  have free: "\<forall>sl\<in>set (slots f). ps_status sl = FREE \<and> currentVehicle sl = None"
    by (auto simp: r(3) ParkingSlot_ctor_def)
  then have "filter (\<lambda>sl. ps_status sl = OCCUPIED) (slots f) = []"
    by (auto simp: filter_empty_conv)
  then have c: "occupiedSlots f = occupied_count f"
    by (simp add: occupied_count_def r(2))
  from free have d: "\<forall>sl\<in>set (slots f). slot_ok sl"
    by (simp add: slot_ok_def)
  from a b c d show ?thesis unfolding floor_ok_def by blast
qed

lemma emplace_floors_result:
  "emplace_floors n i c b acc = Inr fs \<Longrightarrow>
     \<exists>new. fs = acc @ new \<and> length new = n \<and>
       (\<forall>m<n. ParkingFloor_ctor (i + int m) c b = Inr (new ! m))"
proof (induction n arbitrary: i acc)
  case 0
  then show ?case by simp
next
  case (Suc n)
  from Suc.prems obtain f where f: "ParkingFloor_ctor i c b = Inr f"
    and r: "emplace_floors n (i + 1) c b (acc @ [f]) = Inr fs"
    by (auto split: sum.splits if_splits)
  from Suc.IH [OF r] obtain new where new: "fs = (acc @ [f]) @ new" "length new = n"
    "\<forall>m<n. ParkingFloor_ctor (i + 1 + int m) c b = Inr (new ! m)"
    by blast
  have "\<forall>m<Suc n. ParkingFloor_ctor (i + int m) c b = Inr ((f # new) ! m)"
  proof (intro allI impI)
    fix m assume m: "m < Suc n"
    show "ParkingFloor_ctor (i + int m) c b = Inr ((f # new) ! m)"
    proof (cases m)
      case 0
      with f show ?thesis by simp
    next
      case (Suc m')
      with m new(3) have "ParkingFloor_ctor (i + 1 + int m') c b = Inr (new ! m')" by simp
      with Suc show ?thesis by (simp add: algebra_simps)
    qed
  qed
  with new(1,2) show ?case
    by (intro exI [of _ "f # new"]) simp
qed

lemma ctor_floors_ok:
  assumes "ParkingSystem_ctor n c b = Inr s"
  shows "floors_ok (floors s)" "activeTickets s = Map.empty" "ticketCounter s = 1000"
    "totalRevenue s = 0"
proof -
  from assms obtain fs where fs: "emplace_floors (nat n) 1 c b [] = Inr fs"
    and s: "s = \<lparr>floors = fs, activeTickets = Map.empty, ticketCounter = 1000, totalRevenue = 0\<rparr>"
    by (auto simp: ParkingSystem_ctor_def split: sum.splits)
  from emplace_floors_result [OF fs]
  have len: "length fs = nat n" and each: "\<forall>m<nat n. ParkingFloor_ctor (1 + int m) c b = Inr (fs ! m)"
    by auto
  have "\<forall>k<length fs. floorNumber (fs ! k) = int k + 1 \<and> floor_ok (fs ! k)"
  proof (intro allI impI)
    fix k assume "k < length fs"
    with len each have "ParkingFloor_ctor (1 + int k) c b = Inr (fs ! k)" by simp
    from floor_ctor_result(1) [OF this] floor_ctor_ok [OF this]
    show "floorNumber (fs ! k) = int k + 1 \<and> floor_ok (fs ! k)" by simp
  qed
  then show "floors_ok (floors s)" by (simp add: floors_ok_def s)
  show "activeTickets s = Map.empty" "ticketCounter s = 1000" "totalRevenue s = 0"
    by (simp_all add: s)
qed

lemma ctor_inv: "ParkingSystem_ctor n c b = Inr s \<Longrightarrow> facility_inv s"
  by (simp add: facility_inv_def tickets_ok_def ctor_floors_ok)

section \<open>Parking\<close>

lemma first_pos_None:
  "first_pos fs ty = None \<longleftrightarrow> (\<forall>f\<in>set fs. \<forall>sl\<in>set (slots f). \<not> isCompatible sl ty)"
proof (induction fs)
  case Nil
  then show ?case by simp
next
  case (Cons f fs)
  show ?case
  proof (cases "findAvailableSlot_from (slots f) ty")
    case None
    with Cons.IH show ?thesis
      by (simp add: findAvailableSlot_def find_None_iff [symmetric])
  next
    case (Some i)
    with find_None_iff [of "slots f" ty] have "\<exists>sl\<in>set (slots f). isCompatible sl ty"
      by simp
    with Some show ?thesis by (auto simp: findAvailableSlot_def)
  qed
qed

lemma first_pos_Some:
  "first_pos fs ty = Some (k, i) \<Longrightarrow>
     valid_pos fs k i \<and> findAvailableSlot (fs ! k) ty = Some i \<and>
     (\<forall>k'<k. findAvailableSlot (fs ! k') ty = None)"
proof (induction fs arbitrary: k)
  case Nil
  then show ?case by simp
next
  case (Cons f fs)
  show ?case
  proof (cases "findAvailableSlot f ty")
    case (Some j)
    with Cons.prems have "k = 0" "i = j" by simp_all
    with Some show ?thesis
      by (auto simp: valid_pos_def findAvailableSlot_def dest: find_Some)
  next
    case None
    with Cons.prems obtain k' where k': "first_pos fs ty = Some (k', i)" "k = Suc k'"
      by auto
    from Cons.IH [OF k'(1)] None k'(2) show ?thesis
      by (auto simp: valid_pos_def less_Suc_eq_0_disj)
  qed
qed

lemma first_pos_compatible:
  assumes "first_pos fs ty = Some (k, i)"
  shows "valid_pos fs k i" "isCompatible (slot_nth fs k i) ty"
    "\<forall>j<i. \<not> isCompatible (slot_nth fs k j) ty"
    "\<forall>k'<k. \<forall>sl\<in>set (slots (fs ! k')). \<not> isCompatible sl ty"
proof -
  note p = first_pos_Some [OF assms]
  from p show "valid_pos fs k i" by simp
  from p have "findAvailableSlot_from (slots (fs ! k)) ty = Some i"
    by (simp add: findAvailableSlot_def)
  from find_Some [OF this]
  show "isCompatible (slot_nth fs k i) ty" "\<forall>j<i. \<not> isCompatible (slot_nth fs k j) ty"
    by (simp_all add: slot_nth_def)
  from p show "\<forall>k'<k. \<forall>sl\<in>set (slots (fs ! k')). \<not> isCompatible sl ty"
    by (simp add: findAvailableSlot_def find_None_iff)
qed

lemma floor_ok_counter_bounds:
  assumes "floor_ok f"
  shows "occupiedSlots f \<noteq> INT_MAX" "occupiedSlots f \<noteq> INT_MIN" "0 \<le> occupiedSlots f"
proof -
  from assms have "occupiedSlots f = occupied_count f" "int (length (slots f)) < INT_MAX"
    by (simp_all add: floor_ok_def)
  moreover have "0 \<le> occupied_count f" by (simp add: occupied_count_def)
  moreover note occupied_count_le [of f]
  ultimately show "occupiedSlots f \<noteq> INT_MAX" "occupiedSlots f \<noteq> INT_MIN" "0 \<le> occupiedSlots f"
    by (simp_all add: INT_MIN_def)
qed

lemma park_floors_compute:
  "\<forall>f\<in>set fs. floor_ok f \<Longrightarrow>
   parkVehicle_floors fs (Some v) now =
     (case first_pos fs (getType v) of
        None \<Rightarrow> Inr (None, fs)
      | Some (k, i) \<Rightarrow> Inr (Some (occupy (slot_nth fs k i) v now), park_at fs k i v now))"
proof (induction fs)
  case Nil
  then show ?case by simp
next
  case (Cons f fs)
  from Cons.prems have ok: "floor_ok f" and rest: "\<forall>f\<in>set fs. floor_ok f" by simp_all
  note IH = Cons.IH [OF rest]
  show ?case
  proof (cases "findAvailableSlot f (getType v)")
    case None
    with IH show ?thesis
      by (simp add: slot_nth_def park_at_def split: option.splits)
  next
    case (Some i)
    from ok have ids: "\<forall>j<length (slots f). ps_id (slots f ! j) = int j + 1"
      by (simp add: floor_ok_def)
    from Some have i: "i < length (slots f)"
      by (auto simp: findAvailableSlot_def dest: find_Some)
    from floor_park_found [OF Some ids floor_ok_counter_bounds(1) [OF ok]]
    have "floor_parkVehicle f (ps_id (slots f ! i)) (Some v) now = Inr (True, floor_park_at f i v now)" .
    moreover from i have "slots (floor_park_at f i v now) ! i = occupy (slots f ! i) v now"
      by (simp add: floor_park_at_def)
    ultimately show ?thesis using Some
      by (simp add: slot_nth_def park_at_def)
  qed
qed

lemma floors_ok_set: "floors_ok fs \<Longrightarrow> \<forall>f\<in>set fs. floor_ok f"
  by (auto simp: floors_ok_def in_set_conv_nth)

lemma floors_ok_slot:
  assumes "floors_ok fs" "valid_pos fs k i"
  shows "ps_id (slot_nth fs k i) = int i + 1" "ps_floor (slot_nth fs k i) = int k + 1"
  using assms by (simp_all add: floors_ok_def valid_pos_def floor_ok_def slot_nth_def)

lemma park_compute:
  assumes "floors_ok (floors s)"
  shows "parkVehicle s typeChoice reg now_slot now_ticket =
     (let v = (if typeChoice = 1 then Car reg else Bike reg) in
      case first_pos (floors s) (getType v) of
        None \<Rightarrow> Inr (NoSlotsAvailable, s)
      | Some (k, i) \<Rightarrow>
          if ticketCounter s = INT_MAX then Inl SignedOverflow
          else Inr (VehicleParked (ticketCounter s + 1),
                    parked_state s k i v reg now_slot now_ticket))"
proof -
  let ?v = "if typeChoice = 1 then Car reg else Bike reg"
  note pf = park_floors_compute [OF floors_ok_set [OF assms], of ?v now_slot]
  show ?thesis
  proof (cases "first_pos (floors s) (getType ?v)")
    case None
    with pf show ?thesis by (simp add: parkVehicle_def Let_def)
  next
    case (Some p)
    obtain k i where p: "p = (k, i)" by (cases p)
    from Some p first_pos_compatible(1) [of "floors s" "getType ?v" k i]
    have "valid_pos (floors s) k i" by simp
    note sl = floors_ok_slot [OF assms this]
    from Some p pf have "parkVehicle_floors (floors s) (Some ?v) now_slot =
        Inr (Some (occupy (slot_nth (floors s) k i) ?v now_slot), park_at (floors s) k i ?v now_slot)"
      by simp
    then show ?thesis using Some p sl
      by (simp add: parkVehicle_def Let_def occupy_def parked_state_def Ticket_ctor_def)
  qed
qed

section \<open>Unparking and the invariant\<close>

lemma vacate_slots_first_id:
  "i < length ss \<Longrightarrow> ps_status (ss ! i) = OCCUPIED \<Longrightarrow>
   \<forall>j<i. ps_id (ss ! j) \<noteq> ps_id (ss ! i) \<Longrightarrow>
   vacateSlot_slots ss (ps_id (ss ! i)) =
     Some (currentVehicle (ss ! i), ss[i := snd (vacate (ss ! i))])"
proof (induction ss arbitrary: i)
  case Nil
  then show ?case by simp
next
  case (Cons sl ss)
  show ?case
  proof (cases i)
    case 0
    with Cons.prems show ?thesis by (simp add: vacate_def)
  next
    case (Suc i')
    with Cons.prems have ne: "ps_id sl \<noteq> ps_id (ss ! i')" by auto
    from Suc Cons.prems have "i' < length ss" "ps_status (ss ! i') = OCCUPIED"
      "\<forall>j<i'. ps_id (ss ! j) \<noteq> ps_id (ss ! i')"
      by auto
    from Cons.IH [OF this] ne Suc show ?thesis by simp
  qed
qed

lemma floor_vacate_found:
  assumes ok: "floor_ok f" and i: "i < length (slots f)"
    and occ: "ps_status (slots f ! i) = OCCUPIED"
  shows "vacateSlot f (int i + 1) = Inr (currentVehicle (slots f ! i), floor_vacate_at f i)"
proof -
  from ok have ids: "\<forall>j<length (slots f). ps_id (slots f ! j) = int j + 1"
    by (simp add: floor_ok_def)
  with i have "\<forall>j<i. ps_id (slots f ! j) \<noteq> ps_id (slots f ! i)" by auto
  from vacate_slots_first_id [OF i occ this] ids i floor_ok_counter_bounds(2) [OF ok]
  show ?thesis by (simp add: vacateSlot_def floor_vacate_at_def)
qed

lemma unpark_in_range:
  "unparkVehicle s reg now = Inr x \<Longrightarrow> activeTickets s reg = Some t \<Longrightarrow>
     in_int64_range (now - entryTime t)"
  by (auto simp: unparkVehicle_def Let_def split: if_splits)

lemma unpark_compute:
  assumes inv: "facility_inv s" and t: "activeTickets s reg = Some t"
    and rng: "in_int64_range (now - entryTime t)"
  shows "\<exists>k i. valid_pos (floors s) k i \<and> tk_floor t = int k + 1 \<and> tk_slotId t = int i + 1 \<and>
           ps_status (slot_nth (floors s) k i) = OCCUPIED \<and>
           unparkVehicle s reg now =
             Inr (ParkingCharge (billing_charge t now),
                  unparked_state s k i reg (billing_charge t now))"
proof -
  from inv t have "ticket_ref (floors s) reg t"
    by (auto simp: facility_inv_def tickets_ok_def)
  then obtain k i where ki: "valid_pos (floors s) k i" "tk_floor t = int k + 1"
    "tk_slotId t = int i + 1" "ps_status (slot_nth (floors s) k i) = OCCUPIED"
    by (auto simp: ticket_ref_def)
  from ki(1) have k: "k < length (floors s)" and i: "i < length (slots (floors s ! k))"
    by (simp_all add: valid_pos_def)
  from inv k have ok: "floor_ok (floors s ! k)"
    by (simp add: facility_inv_def floors_ok_def)
  from ki(4) have occ: "ps_status (slots (floors s ! k) ! i) = OCCUPIED"
    by (simp add: slot_nth_def)
  from floor_vacate_found [OF ok i occ] t k ki(2,3) rng
  have "unparkVehicle s reg now =
      Inr (ParkingCharge (billing_charge t now), unparked_state s k i reg (billing_charge t now))"
    by (simp add: unparkVehicle_def Let_def unparked_state_def vacate_at_def)
  with ki show ?thesis by blast
qed

lemma valid_pos_park_at [simp]: "valid_pos (park_at fs k i v now) k' i' = valid_pos fs k' i'"
  by (cases "k' = k"; cases "k < length fs") (simp_all add: valid_pos_def park_at_def floor_park_at_def)

lemma valid_pos_vacate_at [simp]: "valid_pos (vacate_at fs k i) k' i' = valid_pos fs k' i'"
  by (cases "k' = k"; cases "k < length fs") (simp_all add: valid_pos_def vacate_at_def floor_vacate_at_def)

lemma slot_nth_park_at:
  "valid_pos fs k i \<Longrightarrow>
   slot_nth (park_at fs k i v now) k' i' =
     (if k' = k \<and> i' = i then occupy (slot_nth fs k i) v now else slot_nth fs k' i')"
  by (cases "k' = k"; cases "i' = i")
     (simp_all add: valid_pos_def slot_nth_def park_at_def floor_park_at_def)

lemma slot_nth_vacate_at:
  "valid_pos fs k i \<Longrightarrow>
   slot_nth (vacate_at fs k i) k' i' =
     (if k' = k \<and> i' = i then snd (vacate (slot_nth fs k i)) else slot_nth fs k' i')"
  by (cases "k' = k"; cases "i' = i")
     (simp_all add: valid_pos_def slot_nth_def vacate_at_def floor_vacate_at_def)

lemma floors_ok_park_at:
  assumes ok: "floors_ok fs" and p: "valid_pos fs k i"
    and c: "isCompatible (slot_nth fs k i) (getType v)"
    and cls: "v = Car (getRegistration v) \<or> v = Bike (getRegistration v)"
  shows "floors_ok (park_at fs k i v now)"
proof -
  from p have k: "k < length fs" and i: "i < length (slots (fs ! k))"
    by (simp_all add: valid_pos_def)
  from ok k have "floor_ok (fs ! k)" by (simp add: floors_ok_def)
  from floor_ok_park [OF this i _ cls, of now] c
  have "floor_ok (floor_park_at (fs ! k) i v now)" by (simp add: slot_nth_def)
  moreover have "floorNumber (floor_park_at (fs ! k) i v now) = floorNumber (fs ! k)"
    by (simp add: floor_park_at_def)
  ultimately show ?thesis using ok k
    by (auto simp: floors_ok_def park_at_def nth_list_update)
qed

lemma floors_ok_vacate_at:
  assumes ok: "floors_ok fs" and p: "valid_pos fs k i"
    and c: "ps_status (slot_nth fs k i) = OCCUPIED"
  shows "floors_ok (vacate_at fs k i)"
proof -
  from p have k: "k < length fs" and i: "i < length (slots (fs ! k))"
    by (simp_all add: valid_pos_def)
  from ok k have "floor_ok (fs ! k)" by (simp add: floors_ok_def)
  from floor_ok_vacate [OF this i] c
  have "floor_ok (floor_vacate_at (fs ! k) i)" by (simp add: slot_nth_def)
  moreover have "floorNumber (floor_vacate_at (fs ! k) i) = floorNumber (fs ! k)"
    by (simp add: floor_vacate_at_def)
  ultimately show ?thesis using ok k
    by (auto simp: floors_ok_def vacate_at_def nth_list_update)
qed

lemma ticket_ref_park_at:
  assumes "ticket_ref fs reg t" "valid_pos fs k i" "ps_status (slot_nth fs k i) \<noteq> OCCUPIED"
  shows "ticket_ref (park_at fs k i v now) reg t"
proof -
  from assms(1) obtain k' i' w where r: "valid_pos fs k' i'" "tk_floor t = int k' + 1"
    "tk_slotId t = int i' + 1" "ps_status (slot_nth fs k' i') = OCCUPIED"
    "currentVehicle (slot_nth fs k' i') = Some w" "getRegistration w = reg"
    "vehicleType t = getType w"
    by (auto simp: ticket_ref_def)
  from r(4) assms(3) have "\<not> (k' = k \<and> i' = i)" by auto
  then have "slot_nth (park_at fs k i v now) k' i' = slot_nth fs k' i'"
    by (simp only: slot_nth_park_at [OF assms(2)] if_False)
  with r show ?thesis unfolding ticket_ref_def
    by (intro exI [of _ k'] exI [of _ i'] exI [of _ w]) simp
qed

lemma park_inv:
  assumes inv: "facility_inv s"
    and p: "first_pos (floors s) (getType v) = Some (k, i)"
    and cls: "v = Car (getRegistration v) \<or> v = Bike (getRegistration v)"
    and regv: "getRegistration v = reg"
  shows "facility_inv (parked_state s k i v reg now_slot now_ticket)"
proof -
  let ?s' = "parked_state s k i v reg now_slot now_ticket"
  let ?t = "Ticket_ctor (ticketCounter s + 1) reg (getType v) (int k + 1) (int i + 1) now_ticket"
  note fp = first_pos_compatible [OF p]
  from inv have ok: "floors_ok (floors s)" and tk: "tickets_ok s"
    by (simp_all add: facility_inv_def)
  have fl: "floors ?s' = park_at (floors s) k i v now_slot"
    and at: "activeTickets ?s' = (activeTickets s)(reg \<mapsto> ?t)"
    by (simp_all add: parked_state_def)
  have tf: "tk_floor ?t = int k + 1" "tk_slotId ?t = int i + 1" "vehicleType ?t = getType v"
    by (simp_all add: Ticket_ctor_def)
  from fp(2) have free: "ps_status (slot_nth (floors s) k i) \<noteq> OCCUPIED"
    by (simp add: isCompatible_def)
  have new_ref: "ticket_ref (floors ?s') reg ?t"
    unfolding ticket_ref_def fl
    by (intro exI [of _ k] exI [of _ i] exI [of _ v])
       (simp add: fp(1) tf regv slot_nth_park_at [OF fp(1)] occupy_def)
  have old_free: "\<not> (tk_floor t' = int k + 1 \<and> tk_slotId t' = int i + 1)"
    if "activeTickets s r = Some t'" for r t'
  proof
    assume eq: "tk_floor t' = int k + 1 \<and> tk_slotId t' = int i + 1"
    from tk that have "ticket_ref (floors s) r t'" by (auto simp: tickets_ok_def)
    then obtain k' i' where r: "tk_floor t' = int k' + 1" "tk_slotId t' = int i' + 1"
      "ps_status (slot_nth (floors s) k' i') = OCCUPIED"
      by (auto simp: ticket_ref_def)
    with eq have "k' = k" "i' = i" by simp_all
    with r(3) fp(2) show False by (simp add: isCompatible_def)
  qed
  have a: "\<forall>r t'. activeTickets ?s' r = Some t' \<longrightarrow> ticket_ref (floors ?s') r t'"
  proof (intro allI impI)
    fix r t' assume h: "activeTickets ?s' r = Some t'"
    show "ticket_ref (floors ?s') r t'"
    proof (cases "r = reg")
      case True
      with h at new_ref show ?thesis by simp
    next
      case False
      with h at have "activeTickets s r = Some t'" by simp
      with tk have "ticket_ref (floors s) r t'" by (auto simp: tickets_ok_def)
      from ticket_ref_park_at [OF this fp(1) free] show ?thesis by (simp add: fl)
    qed
  qed
  have b: "\<forall>r r' t1 t2. activeTickets ?s' r = Some t1 \<longrightarrow> activeTickets ?s' r' = Some t2 \<longrightarrow>
        tk_floor t1 = tk_floor t2 \<longrightarrow> tk_slotId t1 = tk_slotId t2 \<longrightarrow> r = r'"
  proof (intro allI impI)
    fix r r' t1 t2
    assume h: "activeTickets ?s' r = Some t1" "activeTickets ?s' r' = Some t2"
      "tk_floor t1 = tk_floor t2" "tk_slotId t1 = tk_slotId t2"
    show "r = r'"
    proof (cases "r = reg"; cases "r' = reg")
      assume "r = reg" "r' = reg"
      then show ?thesis by simp
    next
      assume "r = reg" "r' \<noteq> reg"
      with h at have "t1 = ?t" "activeTickets s r' = Some t2" by simp_all
      with old_free [of r' t2] h(3,4) tf show ?thesis by simp
    next
      assume "r \<noteq> reg" "r' = reg"
      with h at have "t2 = ?t" "activeTickets s r = Some t1" by simp_all
      with old_free [of r t1] h(3,4) tf show ?thesis by simp
    next
      assume "r \<noteq> reg" "r' \<noteq> reg"
      with h at have "activeTickets s r = Some t1" "activeTickets s r' = Some t2" by simp_all
      with tk h(3,4) show ?thesis unfolding tickets_ok_def by blast
    qed
  qed
  from floors_ok_park_at [OF ok fp(1) fp(2) cls] have "floors_ok (floors ?s')"
    by (simp add: fl)
  with a b show ?thesis unfolding facility_inv_def tickets_ok_def by blast
qed

lemma unpark_inv:
  assumes inv: "facility_inv s" and t: "activeTickets s reg = Some t"
    and p: "valid_pos (floors s) k i" "tk_floor t = int k + 1" "tk_slotId t = int i + 1"
      "ps_status (slot_nth (floors s) k i) = OCCUPIED"
  shows "facility_inv (unparked_state s k i reg c)"
proof -
  let ?s' = "unparked_state s k i reg c"
  from inv have ok: "floors_ok (floors s)" and tk: "tickets_ok s"
    by (simp_all add: facility_inv_def)
  have fl: "floors ?s' = vacate_at (floors s) k i"
    and at: "activeTickets ?s' = (activeTickets s)(reg := None)"
    by (simp_all add: unparked_state_def)
  have a: "\<forall>r t'. activeTickets ?s' r = Some t' \<longrightarrow> ticket_ref (floors ?s') r t'"
  proof (intro allI impI)
    fix r t' assume h: "activeTickets ?s' r = Some t'"
    with at have ne: "r \<noteq> reg" and old: "activeTickets s r = Some t'"
      by (auto split: if_splits)
    from tk old have "ticket_ref (floors s) r t'" by (auto simp: tickets_ok_def)
    then obtain k' i' w where r: "valid_pos (floors s) k' i'" "tk_floor t' = int k' + 1"
      "tk_slotId t' = int i' + 1" "ps_status (slot_nth (floors s) k' i') = OCCUPIED"
      "currentVehicle (slot_nth (floors s) k' i') = Some w" "getRegistration w = r"
      "vehicleType t' = getType w"
      by (auto simp: ticket_ref_def)
    have ne_pos: "\<not> (k' = k \<and> i' = i)"
    proof
      assume "k' = k \<and> i' = i"
      with r(2,3) p(2,3) have "tk_floor t' = tk_floor t" "tk_slotId t' = tk_slotId t" by simp_all
      with tk old t have "r = reg" unfolding tickets_ok_def by blast
      with ne show False by simp
    qed
    from ne_pos have "slot_nth (vacate_at (floors s) k i) k' i' = slot_nth (floors s) k' i'"
      by (simp only: slot_nth_vacate_at [OF p(1)] if_False)
    with r show "ticket_ref (floors ?s') r t'" unfolding ticket_ref_def fl
      by (intro exI [of _ k'] exI [of _ i'] exI [of _ w]) simp
  qed
  have b: "\<forall>r r' t1 t2. activeTickets ?s' r = Some t1 \<longrightarrow> activeTickets ?s' r' = Some t2 \<longrightarrow>
        tk_floor t1 = tk_floor t2 \<longrightarrow> tk_slotId t1 = tk_slotId t2 \<longrightarrow> r = r'"
  proof (intro allI impI)
    fix r r' t1 t2
    assume h: "activeTickets ?s' r = Some t1" "activeTickets ?s' r' = Some t2"
      "tk_floor t1 = tk_floor t2" "tk_slotId t1 = tk_slotId t2"
    from h(1,2) at have "activeTickets s r = Some t1" "activeTickets s r' = Some t2"
      by (auto split: if_splits)
    with tk h(3,4) show "r = r'" unfolding tickets_ok_def by blast
  qed
  from floors_ok_vacate_at [OF ok p(1) p(4)] have "floors_ok (floors ?s')"
    by (simp add: fl)
  with a b show ?thesis unfolding facility_inv_def tickets_ok_def by blast
qed

section \<open>Runs and the status report\<close>

lemma step_inv:
  assumes inv: "facility_inv s" and st: "step s op = Inr (out, s')"
  shows "facility_inv s'"
proof (cases op)
  case (Park typeChoice reg now_slot now_ticket)
  let ?v = "if typeChoice = 1 then Car reg else Bike reg"
  from inv have ok: "floors_ok (floors s)" by (simp add: facility_inv_def)
  have cls: "?v = Car (getRegistration ?v) \<or> ?v = Bike (getRegistration ?v)" by simp
  have regv: "getRegistration ?v = reg" by simp
  show ?thesis
  proof (cases "first_pos (floors s) (getType ?v)")
    case None
    with st Park park_compute [OF ok, of typeChoice reg now_slot now_ticket] inv
    show ?thesis by (simp add: Let_def)
  next
    case (Some p)
    obtain k i where p: "p = (k, i)" by (cases p)
    from st Park park_compute [OF ok, of typeChoice reg now_slot now_ticket] Some p
    have "s' = parked_state s k i ?v reg now_slot now_ticket"
      by (simp add: Let_def split: if_splits)
    with park_inv [OF inv _ cls regv, of k i now_slot now_ticket] Some p
    show ?thesis by simp
  qed
next
  case (Unpark reg now)
  show ?thesis
  proof (cases "activeTickets s reg")
    case None
    with st Unpark inv show ?thesis by (simp add: unparkVehicle_def)
  next
    case (Some t)
    from st Unpark have "unparkVehicle s reg now = Inr (out, s')" by simp
    from unpark_in_range [OF this Some] have rng: "in_int64_range (now - entryTime t)" .
    from unpark_compute [OF inv Some rng] obtain k i where
      p: "valid_pos (floors s) k i" "tk_floor t = int k + 1" "tk_slotId t = int i + 1"
        "ps_status (slot_nth (floors s) k i) = OCCUPIED" and
      r: "unparkVehicle s reg now =
          Inr (ParkingCharge (billing_charge t now), unparked_state s k i reg (billing_charge t now))"
      by blast
    from r st Unpark have "s' = unparked_state s k i reg (billing_charge t now)" by simp
    with unpark_inv [OF inv Some p] show ?thesis by simp
  qed
next
  case Status
  with st inv show ?thesis by (auto split: sum.splits)
qed

lemma final_state_Cons: "final_state s ((out, s') # tr) = final_state s' tr"
  by (simp add: final_state_def)

lemma run_invariant:
  assumes "P s" and "run s ops = Inr tr"
    and "\<And>s op out s'. P s \<Longrightarrow> step s op = Inr (out, s') \<Longrightarrow> P s'"
  shows "P (final_state s tr)"
  using assms(1,2)
proof (induction ops arbitrary: s tr)
  case Nil
  then show ?case by (simp add: final_state_def)
next
  case (Cons op ops)
  from Cons.prems(2) obtain out s' tr' where
    st: "step s op = Inr (out, s')" and r: "run s' ops = Inr tr'" and tr: "tr = (out, s') # tr'"
    by (auto split: sum.splits prod.splits)
  from assms(3) [OF Cons.prems(1) st] have "P s'" .
  from Cons.IH [OF this r] tr show ?case by (simp add: final_state_Cons)
qed

lemma reachable_inv:
  assumes "ParkingSystem_ctor n c b = Inr s0" and "run s0 ops = Inr tr"
  shows "facility_inv (final_state s0 tr)"
  using ctor_inv [OF assms(1)] assms(2) step_inv by (rule run_invariant)

lemma getTotalSlots_ok: "floor_ok f \<Longrightarrow> getTotalSlots f = int (length (slots f))"
  by (simp add: getTotalSlots_def floor_ok_def INT_MAX_def)

lemma displayStatus_floors_compute:
  "\<forall>f\<in>set fs. floor_ok f \<Longrightarrow> 0 \<le> occ \<Longrightarrow> occ \<le> tot \<Longrightarrow> tot \<le> INT_MAX \<Longrightarrow>
   displayStatus_floors fs tot occ =
     (if tot + sum_list (map (\<lambda>f. int (length (slots f))) fs) \<le> INT_MAX
      then Inr (tot + sum_list (map (\<lambda>f. int (length (slots f))) fs),
                occ + sum_list (map occupied_count fs))
      else Inl SignedOverflow)"
proof (induction fs arbitrary: tot occ)
  case Nil
  then show ?case by simp
next
  case (Cons f fs)
  from Cons.prems(1) have ok: "floor_ok f" and rest: "\<forall>f\<in>set fs. floor_ok f" by simp_all
  let ?n = "int (length (slots f))" and ?o = "occupied_count f"
  let ?rest = "sum_list (map (\<lambda>f. int (length (slots f))) fs)"
  from ok have g: "getTotalSlots f = ?n" "getOccupiedSlots f = ?o"
    by (simp_all add: getTotalSlots_ok getOccupiedSlots_def floor_ok_def)
  have o: "0 \<le> ?o" "?o \<le> ?n"
    by (simp_all add: occupied_count_def)
  have rest_nonneg: "0 \<le> ?rest" by (induction fs) simp_all
  show ?case
  proof (cases "tot + ?n \<le> INT_MAX")
    case True
    with Cons.prems o have rng: "in_int_range (tot + ?n)" "in_int_range (occ + ?o)"
      by (simp_all add: in_int_range_def INT_MIN_def)
    from Cons.prems o have "0 \<le> occ + ?o" "occ + ?o \<le> tot + ?n" by simp_all
    from Cons.IH [OF rest this True] rng g show ?thesis
      by (simp add: add.assoc)
  next
    case False
    then have "\<not> in_int_range (tot + ?n)" by (simp add: in_int_range_def)
    moreover from False rest_nonneg have "\<not> tot + (?n + ?rest) \<le> INT_MAX" by simp
    ultimately show ?thesis using g by simp
  qed
qed

lemma displayStatus_compute:
  assumes "floors_ok (floors s)"
  shows "displayStatus s =
     (if total_slots s \<le> INT_MAX
      then Inr (StatusReport (total_slots s) (total_occupied s) (total_slots s - total_occupied s))
      else Inl SignedOverflow)"
proof -
  have "(0::int) \<le> INT_MAX" by (simp add: INT_MAX_def)
  from displayStatus_floors_compute [OF floors_ok_set [OF assms] _ _ this, of 0]
  have d: "displayStatus_floors (floors s) 0 0 =
      (if total_slots s \<le> INT_MAX then Inr (total_slots s, total_occupied s)
       else Inl SignedOverflow)"
    by (simp add: total_slots_def total_occupied_def)
  have "total_occupied s \<le> total_slots s" unfolding total_occupied_def total_slots_def
    by (rule sum_list_mono) (simp add: occupied_count_le)
  moreover have "0 \<le> total_occupied s" unfolding total_occupied_def
    by (rule sum_list_nonneg) (auto simp: occupied_count_def)
  ultimately have "total_slots s \<le> INT_MAX \<Longrightarrow> in_int_range (total_slots s - total_occupied s)"
    by (simp add: in_int_range_def INT_MIN_def)
  with d show ?thesis by (simp add: displayStatus_def)
qed

lemmas model_defs =
  parkVehicle_def unparkVehicle_def displayStatus_def findAvailableSlot_def
  floor_parkVehicle_def slot_parkVehicle_def vacateSlot_def vacate_def isCompatible_def
  ParkingSlot_ctor_def Ticket_ctor_def billing_charge_exact getTotalSlots_def
  getOccupiedSlots_def in_int_range_def in_int64_range_def INT_MAX_def INT_MIN_def Let_def

section \<open>Ticket ids and revenue\<close>

lemma park_report:
  assumes "parkVehicle s typeChoice reg now_slot now_ticket = Inr (out, s')"
  shows "totalRevenue s' = totalRevenue s"
    and "(out = NoSlotsAvailable \<and> ticketCounter s' = ticketCounter s) \<or>
         (out = VehicleParked (ticketCounter s + 1) \<and> ticketCounter s' = ticketCounter s + 1)"
  using assms
  by (auto simp: parkVehicle_def Let_def Ticket_ctor_def
      split: sum.splits prod.splits option.splits if_splits)

lemma unpark_report:
  assumes "unparkVehicle s reg now = Inr (out, s')"
  shows "ticketCounter s' = ticketCounter s"
    and "(activeTickets s reg = None \<and> out = VehicleNotFound \<and> s' = s) \<or>
         (\<exists>t. activeTickets s reg = Some t \<and> out = ParkingCharge (billing_charge t now) \<and>
              totalRevenue s' = totalRevenue s + billing_charge t now \<and>
              activeTickets s' = (activeTickets s)(reg := None))"
  using assms
  by (auto simp: unparkVehicle_def Let_def
      split: sum.splits prod.splits option.splits if_splits)

lemma status_report:
  "displayStatus s = Inr out \<Longrightarrow> \<exists>a b c. out = StatusReport a b c"
  by (auto simp: displayStatus_def split: sum.splits prod.splits if_splits)

lemma step_counter:
  assumes "step s op = Inr (out, s')"
  shows "(out = VehicleParked (ticketCounter s + 1) \<and> ticketCounter s' = ticketCounter s + 1) \<or>
         (ticket_ids [out] = [] \<and> ticketCounter s' = ticketCounter s)"
proof (cases op)
  case (Park typeChoice reg now_slot now_ticket)
  with assms park_report(2) [of s typeChoice reg now_slot now_ticket out s']
  show ?thesis by auto
next
  case (Unpark reg now)
  with assms unpark_report [of s reg now out s'] show ?thesis by auto
next
  case Status
  with assms status_report [of s out] show ?thesis by (auto split: sum.splits)
qed

lemma step_revenue:
  assumes "step s op = Inr (out, s')"
  shows "totalRevenue s' = totalRevenue s + charge_of out"
proof (cases op)
  case (Park typeChoice reg now_slot now_ticket)
  with assms park_report [of s typeChoice reg now_slot now_ticket out s']
  show ?thesis by auto
next
  case (Unpark reg now)
  with assms unpark_report(2) [of s reg now out s'] show ?thesis by auto
next
  case Status
  with assms status_report [of s out] show ?thesis by (auto split: sum.splits)
qed

lemma run_Cons_elim:
  assumes "run s (op # ops) = Inr tr"
  obtains out s' tr' where "step s op = Inr (out, s')" "run s' ops = Inr tr'"
    "tr = (out, s') # tr'"
  using assms by (auto split: sum.splits prod.splits)

lemma ticket_ids_skip:
  "ticket_ids [r] = [] \<Longrightarrow> ticket_ids (r # rs) = ticket_ids rs"
  by (cases r) simp_all

lemma run_ticket_ids:
  "run s ops = Inr tr \<Longrightarrow>
     \<exists>n. ticket_ids (map fst tr) = map (\<lambda>m. ticketCounter s + 1 + int m) [0..<n]"
proof (induction ops arbitrary: s tr)
  case Nil
  then show ?case by simp
next
  case (Cons op ops)
  from Cons.prems obtain out s' tr' where
    st: "step s op = Inr (out, s')" and r: "run s' ops = Inr tr'" and tr: "tr = (out, s') # tr'"
    by (rule run_Cons_elim)
  from Cons.IH [OF r] obtain n where
    n: "ticket_ids (map fst tr') = map (\<lambda>m. ticketCounter s' + 1 + int m) [0..<n]"
    by blast
  from step_counter [OF st] show ?case
  proof
    assume a: "out = VehicleParked (ticketCounter s + 1) \<and> ticketCounter s' = ticketCounter s + 1"
    have "map (\<lambda>m. ticketCounter s + 1 + int m) [0..<Suc n] =
        (ticketCounter s + 1) # map (\<lambda>m. ticketCounter s + 1 + 1 + int m) [0..<n]"
      by (simp only: map_upt_Suc) (simp add: algebra_simps)
    with a n tr have "ticket_ids (map fst tr) =
        map (\<lambda>m. ticketCounter s + 1 + int m) [0..<Suc n]"
      by simp
    then show ?thesis by blast
  next
    assume a: "ticket_ids [out] = [] \<and> ticketCounter s' = ticketCounter s"
    with n tr have "ticket_ids (map fst tr) = map (\<lambda>m. ticketCounter s + 1 + int m) [0..<n]"
      by (simp add: ticket_ids_skip)
    then show ?thesis by blast
  qed
qed

lemma run_revenue:
  "run s ops = Inr tr \<Longrightarrow>
     totalRevenue (final_state s tr) = totalRevenue s + sum_list (map (\<lambda>x. charge_of (fst x)) tr)"
proof (induction ops arbitrary: s tr)
  case Nil
  then show ?case by (simp add: final_state_def)
next
  case (Cons op ops)
  from Cons.prems obtain out s' tr' where
    st: "step s op = Inr (out, s')" and r: "run s' ops = Inr tr'" and tr: "tr = (out, s') # tr'"
    by (rule run_Cons_elim)
  from Cons.IH [OF r] step_revenue [OF st] tr show ?case
    by (simp add: final_state_Cons)
qed

lemma run_revenue_steps:
  "run s ops = Inr tr \<Longrightarrow>
     \<forall>m<length tr. revenue_trace s tr ! Suc m = revenue_trace s tr ! m + charge_of (fst (tr ! m))"
proof (induction ops arbitrary: s tr)
  case Nil
  then show ?case by simp
next
  case (Cons op ops)
  from Cons.prems obtain out s' tr' where
    st: "step s op = Inr (out, s')" and r: "run s' ops = Inr tr'" and tr: "tr = (out, s') # tr'"
    by (rule run_Cons_elim)
  note IH = Cons.IH [OF r]
  show ?case
  proof (intro allI impI)
    fix m assume m: "m < length tr"
    show "revenue_trace s tr ! Suc m = revenue_trace s tr ! m + charge_of (fst (tr ! m))"
    proof (cases m)
      case 0
      with step_revenue [OF st] tr show ?thesis by (simp add: revenue_trace_def)
    next
      case (Suc m')
      with m tr have "m' < length tr'" by simp
      with IH have "revenue_trace s' tr' ! Suc m' = revenue_trace s' tr' ! m' + charge_of (fst (tr' ! m'))"
        by simp
      with Suc tr show ?thesis by (simp add: revenue_trace_def)
    qed
  qed
qed

lemma unparks_charges_nonneg:
  "run s (unparks ups) = Inr tr \<Longrightarrow>
   \<forall>(reg, now)\<in>set ups. case activeTickets s reg of None \<Rightarrow> True | Some t \<Rightarrow> entryTime t \<le> now \<Longrightarrow>
   \<forall>x\<in>set tr. 0 \<le> charge_of (fst x)"
proof (induction ups arbitrary: s tr)
  case Nil
  then show ?case by (simp add: unparks_def)
next
  case (Cons u ups)
  obtain reg now where u: "u = (reg, now)" by (cases u)
  from Cons.prems(1) u have "run s (Unpark reg now # unparks ups) = Inr tr"
    by (simp add: unparks_def)
  then obtain out s' tr' where
    st: "step s (Unpark reg now) = Inr (out, s')" and r: "run s' (unparks ups) = Inr tr'"
    and tr: "tr = (out, s') # tr'"
    by (rule run_Cons_elim)
  from st have un: "unparkVehicle s reg now = Inr (out, s')" by simp
  from Cons.prems(2) u
  have here: "case activeTickets s reg of None \<Rightarrow> True | Some t \<Rightarrow> entryTime t \<le> now"
    and later: "\<forall>(r, n)\<in>set ups. case activeTickets s r of None \<Rightarrow> True | Some t \<Rightarrow> entryTime t \<le> n"
    by simp_all
  from unpark_report(2) [OF un]
  have "0 \<le> charge_of out \<and>
        (\<forall>(r, n)\<in>set ups. case activeTickets s' r of None \<Rightarrow> True | Some t \<Rightarrow> entryTime t \<le> n)"
  proof
    assume "activeTickets s reg = None \<and> out = VehicleNotFound \<and> s' = s"
    with later show ?thesis by simp
  next
    assume "\<exists>t. activeTickets s reg = Some t \<and> out = ParkingCharge (billing_charge t now) \<and>
              totalRevenue s' = totalRevenue s + billing_charge t now \<and>
              activeTickets s' = (activeTickets s)(reg := None)"
    then obtain t where t: "activeTickets s reg = Some t" "out = ParkingCharge (billing_charge t now)"
      "activeTickets s' = (activeTickets s)(reg := None)"
      by blast
    from here t(1) have "entryTime t \<le> now" by simp
    from billing_charge_nonneg [OF this] t(2) have "0 \<le> charge_of out" by simp
    moreover have "case activeTickets s' r of None \<Rightarrow> True | Some t \<Rightarrow> entryTime t \<le> n"
      if "(r, n) \<in> set ups" for r n
    proof -
      from later that
      have "case activeTickets s r of None \<Rightarrow> True | Some t \<Rightarrow> entryTime t \<le> n"
        by auto
      with t(3) show ?thesis by (cases "r = reg") simp_all
    qed
    then have "\<forall>(r, n)\<in>set ups. case activeTickets s' r of None \<Rightarrow> True | Some t \<Rightarrow> entryTime t \<le> n"
      by auto
    ultimately show ?thesis by simp
  qed
  with Cons.IH [OF r] tr show ?case by simp
qed

lemma unpark_returns:
  assumes "activeTickets s reg = Some t"
    and "1 \<le> tk_floor t" "tk_floor t \<le> int (length (floors s))"
    and "occupiedSlots (floors s ! nat (tk_floor t - 1)) \<noteq> INT_MIN"
    and "in_int64_range (now - entryTime t)"
  shows "\<exists>s'. unparkVehicle s reg now = Inr (ParkingCharge (billing_charge t now), s')"
  using assms
  by (auto simp: unparkVehicle_def vacateSlot_def Let_def split: option.splits prod.splits)

lemma find_numbered:
  assumes "\<forall>j<length xs. key (xs ! j) = int j + 1" and "k < length xs"
  shows "find (\<lambda>x. key x = int k + 1) xs = Some (xs ! k)"
  unfolding find_Some_iff using assms by (intro exI [of _ k]) auto

lemma slot_at_pos:
  assumes ok: "floors_ok (floors s)" and p: "valid_pos (floors s) k i"
  shows "slot_at s (int k + 1) (int i + 1) = Some (slot_nth (floors s) k i)"
proof -
  from p have k: "k < length (floors s)" and i: "i < length (slots (floors s ! k))"
    by (simp_all add: valid_pos_def)
  from ok have "\<forall>j<length (floors s). floorNumber (floors s ! j) = int j + 1"
    by (simp add: floors_ok_def)
  from find_numbered [OF this k]
  have f: "find (\<lambda>f. floorNumber f = int k + 1) (floors s) = Some (floors s ! k)" .
  from ok k have "\<forall>j<length (slots (floors s ! k)). ps_id (slots (floors s ! k) ! j) = int j + 1"
    by (simp add: floors_ok_def floor_ok_def)
  from find_numbered [OF this i] f show ?thesis
    by (simp add: slot_at_def slot_nth_def)
qed

lemma in_floors_nth:
  "f \<in> set fs \<Longrightarrow> \<exists>k<length fs. f = fs ! k"
  by (auto simp: in_set_conv_nth)

lemma park_floors_none_compatible:
  "\<forall>f\<in>set fs. \<forall>sl\<in>set (slots f). \<not> isCompatible sl (getType v) \<Longrightarrow>
     parkVehicle_floors fs (Some v) now = Inr (None, fs)"
  by (induction fs) (auto simp: findAvailableSlot_def find_None_iff [THEN iffD2])

text \<open>
  In a state that satisfies the invariant every operation returns, unless a park
  would count the ticket counter past \<open>INT_MAX\<close> or the status report would add
  up more than \<open>INT_MAX\<close> slots.
\<close>

lemma step_defined:
  assumes inv: "facility_inv s" and tc: "ticketCounter s < INT_MAX"
    and tot: "total_slots s \<le> INT_MAX"
    and rng: "\<And>reg now t. op = Unpark reg now \<Longrightarrow> activeTickets s reg = Some t \<Longrightarrow>
                in_int64_range (now - entryTime t)"
  shows "\<exists>out s'. step s op = Inr (out, s')"
proof (cases op)
  case (Park typeChoice reg now_slot now_ticket)
  from inv have ok: "floors_ok (floors s)" by (simp add: facility_inv_def)
  from park_compute [OF ok, of typeChoice reg now_slot now_ticket] tc Park
  show ?thesis by (auto simp: Let_def split: option.splits)
next
  case (Unpark reg now)
  show ?thesis
  proof (cases "activeTickets s reg")
    case None
    with Unpark show ?thesis by (simp add: unparkVehicle_def)
  next
    case (Some t)
    from unpark_compute [OF inv Some rng [OF Unpark Some]] Unpark show ?thesis by auto
  qed
next
  case Status
  from inv have ok: "floors_ok (floors s)" by (simp add: facility_inv_def)
  from displayStatus_compute [OF ok] tot Status show ?thesis by simp
qed


section \<open>The example states\<close>

lemma ctor_2_1_1: "ParkingSystem_ctor 2 1 1 = Inr fresh_2_1_1"
  by (simp add: ParkingSystem_ctor_def ParkingFloor_ctor_def fresh_2_1_1_def
      eval_nat_numeral INT_MAX_def)

lemma ctor_bikes_only: "ParkingSystem_ctor 1 0 1 = Inr bikes_only"
  by (simp add: ParkingSystem_ctor_def ParkingFloor_ctor_def bikes_only_def INT_MAX_def)

lemma run_one_car:
  "run fresh_2_1_1 [Park 1 ''A'' 7190000000000 7200000000000] = Inr [(VehicleParked 1001, one_car_parked)]"
  by (simp add: fresh_2_1_1_def one_car_parked_def occupy_def model_defs)

lemma two_parked_run:
  "run one_car_parked [Park 2 ''B'' 7300000000000 7400000000000] = Inr [(VehicleParked 1002, two_parked)]"
  by (simp add: one_car_parked_def two_parked_def occupy_def model_defs)

lemma same_reg_twice_park:
  "parkVehicle one_car_parked 1 ''A'' 9000000000000 9001000000000 = Inr (VehicleParked 1002, same_reg_twice)"
  by (simp add: one_car_parked_def same_reg_twice_def occupy_def model_defs)

section \<open>Operations that change nothing\<close>

text \<open>
  Claim C3. When no floor has a free slot whose allowed type is the type of the
  vehicle being parked (a \<open>Car\<close> for type choice 1, a \<open>Bike\<close> otherwise), park
  reports that no slot is available and returns the facility exactly as it was:
  slots, active tickets, ticket counter and revenue.
\<close>

theorem park_no_slot:
  assumes "\<forall>f\<in>set (floors s). \<forall>sl\<in>set (slots f).
             \<not> isCompatible sl (if typeChoice = 1 then CAR else BIKE)"
  shows "parkVehicle s typeChoice reg now_slot now_ticket = Inr (NoSlotsAvailable, s)"
proof -
  let ?v = "if typeChoice = 1 then Car reg else Bike reg"
  have "getType ?v = (if typeChoice = 1 then CAR else BIKE)" by simp
  with assms have "\<forall>f\<in>set (floors s). \<forall>sl\<in>set (slots f). \<not> isCompatible sl (getType ?v)"
    by simp
  then have "parkVehicle_floors (floors s) (Some ?v) now_slot = Inr (None, floors s)"
    by (rule park_floors_none_compatible)
  then show ?thesis by (simp add: parkVehicle_def)
qed

theorem park_no_slot_witness:
  "list_all (\<lambda>f. list_all (\<lambda>sl. \<not> isCompatible sl CAR) (slots f)) (floors bikes_only)
   \<and> parkVehicle bikes_only 1 ''KA-01'' 5 6 = Inr (NoSlotsAvailable, bikes_only)"
proof -
  have h: "\<forall>f\<in>set (floors bikes_only). \<forall>sl\<in>set (slots f).
       \<not> isCompatible sl (if (1::int) = 1 then CAR else BIKE)"
    by (simp add: bikes_only_def ParkingSlot_ctor_def isCompatible_def)
  from h park_no_slot [OF h, of "''KA-01''" 5 6] show ?thesis
    by (simp add: list_all_iff)
qed

text \<open>
  Claim C4. Unparking a registration that has no entry in the active-ticket map
  reports that the vehicle was not found and returns the facility exactly as it was.
\<close>

theorem unpark_unknown:
  "activeTickets s reg = None \<Longrightarrow> unparkVehicle s reg now = Inr (VehicleNotFound, s)"
  by (simp add: unparkVehicle_def)

theorem unpark_unknown_witness:
  "activeTickets fresh_2_1_1 ''KA-01'' = None
   \<and> unparkVehicle fresh_2_1_1 ''KA-01'' 5 = Inr (VehicleNotFound, fresh_2_1_1)"
proof -
  have h: "activeTickets fresh_2_1_1 ''KA-01'' = None"
    by (simp add: fresh_2_1_1_def)
  from h unpark_unknown [OF h, of 5] show ?thesis by simp
qed

section \<open>Rates\<close>

text \<open>
  Claim C7. The hourly rate of a vehicle is determined by its category alone (the
  category as \<open>getTypeString\<close> names it, whatever the registration), and it is the
  fixed table: Car 20, Bike 10, Electric Car 16 (0.8 of Car), Handicapped Car 10
  (0.5 of Car), Handicapped Bike 5 (0.5 of Bike).
\<close>

theorem rate_table:
  "getHourlyRate v =
     (if getTypeString v = ''Car'' then 20.0
      else if getTypeString v = ''Bike'' then 10.0
      else if getTypeString v = ''Electric Car'' then 16.0
      else if getTypeString v = ''Handicapped Car'' then 10.0
      else 5.0)
   \<and> getHourlyRate (Car reg) = 20.0
   \<and> getHourlyRate (Bike reg) = 10.0
   \<and> getHourlyRate (ElectricCar reg) = 16.0
   \<and> getHourlyRate (ElectricCar reg) = 0.8 * getHourlyRate (Car reg)
   \<and> getHourlyRate (HandicappedVehicle reg CAR) = 10.0
   \<and> getHourlyRate (HandicappedVehicle reg CAR) = 0.5 * getHourlyRate (Car reg)
   \<and> getHourlyRate (HandicappedVehicle reg BIKE) = 5.0
   \<and> getHourlyRate (HandicappedVehicle reg BIKE) = 0.5 * getHourlyRate (Bike reg)"
  by (cases v) (simp_all add: CAR_HOURLY_RATE_def BIKE_HOURLY_RATE_def)

section \<open>Invariants of reachable states\<close>

text \<open>
  Claim C6. In every state reached from a freshly constructed facility by park,
  unpark and status operations, a slot that holds a vehicle holds one whose type is
  the slot's allowed type; the vehicle is a \<open>Car\<close> or a \<open>Bike\<close> object, so its
  category is its type, and a slot holds a vehicle exactly when its status is
  \<open>OCCUPIED\<close>.
\<close>

theorem slot_holds_own_type:
  assumes "ParkingSystem_ctor n c b = Inr s0" and "run s0 ops = Inr tr"
  shows "\<forall>f\<in>set (floors (final_state s0 tr)). \<forall>sl\<in>set (slots f).
           (ps_status sl = OCCUPIED \<longleftrightarrow> currentVehicle sl \<noteq> None) \<and>
           (\<forall>v. currentVehicle sl = Some v \<longrightarrow>
              getType v = allowedType sl \<and>
              (v = Car (getRegistration v) \<or> v = Bike (getRegistration v)))"
proof (intro ballI)
  fix f sl
  assume f: "f \<in> set (floors (final_state s0 tr))" and sl: "sl \<in> set (slots f)"
  from reachable_inv [OF assms] have "floors_ok (floors (final_state s0 tr))"
    by (simp add: facility_inv_def)
  from floors_ok_set [OF this] f sl have "slot_ok sl" by (simp add: floor_ok_def)
  then show "(ps_status sl = OCCUPIED \<longleftrightarrow> currentVehicle sl \<noteq> None) \<and>
           (\<forall>v. currentVehicle sl = Some v \<longrightarrow>
              getType v = allowedType sl \<and>
              (v = Car (getRegistration v) \<or> v = Bike (getRegistration v)))"
    by (auto simp: slot_ok_def split: option.splits)
qed

theorem slot_holds_own_type_witness:
  "list_all (\<lambda>f. list_all (\<lambda>sl.
       (ps_status sl = OCCUPIED \<longleftrightarrow> currentVehicle sl \<noteq> None) \<and>
       (case currentVehicle sl of None \<Rightarrow> True | Some v \<Rightarrow> getType v = allowedType sl))
     (slots f)) (floors one_car_parked)
   \<and> map (\<lambda>f. map currentVehicle (slots f)) (floors one_car_parked) =
       [[Some (Car ''A''), None], [None, None]]"
proof -
  from slot_holds_own_type [OF ctor_2_1_1 run_one_car]
  have "\<forall>f\<in>set (floors one_car_parked). \<forall>sl\<in>set (slots f).
           (ps_status sl = OCCUPIED \<longleftrightarrow> currentVehicle sl \<noteq> None) \<and>
           (\<forall>v. currentVehicle sl = Some v \<longrightarrow> getType v = allowedType sl)"
    by (simp add: final_state_def)
  then have "list_all (\<lambda>f. list_all (\<lambda>sl.
       (ps_status sl = OCCUPIED \<longleftrightarrow> currentVehicle sl \<noteq> None) \<and>
       (case currentVehicle sl of None \<Rightarrow> True | Some v \<Rightarrow> getType v = allowedType sl))
     (slots f)) (floors one_car_parked)"
    unfolding list_all_iff by (auto split: option.splits)
  moreover have "map (\<lambda>f. map currentVehicle (slots f)) (floors one_car_parked) =
       [[Some (Car ''A''), None], [None, None]]"
    by (simp add: one_car_parked_def occupy_def ParkingSlot_ctor_def)
  ultimately show ?thesis by simp
qed

text \<open>
  Claim C10. In every state reached from a freshly constructed facility, each
  floor's \<open>occupiedSlots\<close> counter is the number of its slots with status
  \<open>OCCUPIED\<close>. The status report therefore prints the true number of slots, the true
  number of occupied slots and their difference; it is defined whenever the number
  of slots fits an \<open>int\<close>.
\<close>

theorem occupied_counter_exact:
  assumes "ParkingSystem_ctor n c b = Inr s0" and "run s0 ops = Inr tr"
  shows "(\<forall>f\<in>set (floors (final_state s0 tr)). occupiedSlots f = occupied_count f) \<and>
         displayStatus (final_state s0 tr) =
           (if total_slots (final_state s0 tr) \<le> INT_MAX
            then Inr (StatusReport (total_slots (final_state s0 tr))
                        (total_occupied (final_state s0 tr))
                        (total_slots (final_state s0 tr) - total_occupied (final_state s0 tr)))
            else Inl SignedOverflow)"
proof -
  from reachable_inv [OF assms] have ok: "floors_ok (floors (final_state s0 tr))"
    by (simp add: facility_inv_def)
  from floors_ok_set [OF ok] have "\<forall>f\<in>set (floors (final_state s0 tr)). occupiedSlots f = occupied_count f"
    by (simp add: floor_ok_def)
  with displayStatus_compute [OF ok] show ?thesis by simp
qed

theorem occupied_counter_exact_witness:
  "list_all (\<lambda>f. occupiedSlots f = occupied_count f) (floors one_car_parked)
   \<and> displayStatus one_car_parked = Inr (StatusReport 4 1 3)"
proof -
  have ev: "total_slots one_car_parked = 4" "total_occupied one_car_parked = 1"
    by (simp_all add: total_slots_def total_occupied_def occupied_count_def one_car_parked_def
        occupy_def ParkingSlot_ctor_def)
  from occupied_counter_exact [OF ctor_2_1_1 run_one_car] ev show ?thesis
    by (simp add: final_state_def list_all_iff INT_MAX_def)
qed

section \<open>Ticket ids and billing\<close>

text \<open>
  Claim C5. In any run of operations on a freshly constructed facility, the ticket
  ids printed by the successful parks are, in order, 1001, 1002, 1003 and so on: the
  first is 1001 and each later one is the one before plus 1.
\<close>

theorem ticket_ids_sequence:
  assumes "ParkingSystem_ctor n c b = Inr s0" and "run s0 ops = Inr tr"
  shows "ticket_ids (map fst tr) =
           map (\<lambda>m. 1001 + int m) [0..<length (ticket_ids (map fst tr))]
       \<and> (ticket_ids (map fst tr) \<noteq> [] \<longrightarrow> hd (ticket_ids (map fst tr)) = 1001)
       \<and> (\<forall>m. Suc m < length (ticket_ids (map fst tr)) \<longrightarrow>
             ticket_ids (map fst tr) ! Suc m = ticket_ids (map fst tr) ! m + 1)"
proof -
  let ?ids = "ticket_ids (map fst tr)"
  from run_ticket_ids [OF assms(2)] ctor_floors_ok(3) [OF assms(1)]
  obtain k where k: "?ids = map (\<lambda>m. 1001 + int m) [0..<k]"
    by auto
  then have len: "length ?ids = k" by simp
  have a: "?ids = map (\<lambda>m. 1001 + int m) [0..<length ?ids]"
    unfolding len by (rule k)
  have b: "?ids \<noteq> [] \<longrightarrow> hd ?ids = 1001"
  proof
    assume "?ids \<noteq> []"
    with len have "0 < k" by (cases k) auto
    then have "[0..<k] = 0 # [1..<k]" by (simp add: upt_rec)
    with k show "hd ?ids = 1001" by simp
  qed
  have c: "\<forall>m. Suc m < length ?ids \<longrightarrow> ?ids ! Suc m = ?ids ! m + 1"
    unfolding len by (simp add: k)
  from a b c show ?thesis by (intro conjI)
qed

theorem ticket_ids_sequence_witness:
  "(case run fresh_2_1_1 [Park 1 ''A'' 10000000000 11000000000, Status, Park 2 ''B'' 20000000000 21000000000, Unpark ''A'' 7300000000000,
                          Park 1 ''C'' 8000000000000 8001000000000, Park 1 ''D'' 8002000000000 8003000000000, Park 1 ''E'' 8004000000000 8005000000000] of
      Inl e \<Rightarrow> False
    | Inr tr \<Rightarrow>
        ticket_ids (map fst tr) = map (\<lambda>m. 1001 + int m) [0..<length (ticket_ids (map fst tr))] \<and>
        map fst tr = [VehicleParked 1001, StatusReport 4 1 3, VehicleParked 1002, ParkingCharge 60,
                      VehicleParked 1003, VehicleParked 1004, NoSlotsAvailable])"
proof -
  let ?ops = "[Park 1 ''A'' 10000000000 11000000000, Status, Park 2 ''B'' 20000000000 21000000000, Unpark ''A'' 7300000000000,
               Park 1 ''C'' 8000000000000 8001000000000, Park 1 ''D'' 8002000000000 8003000000000, Park 1 ''E'' 8004000000000 8005000000000]"
  have "\<exists>tr. run fresh_2_1_1 ?ops = Inr tr"
    by (simp add: fresh_2_1_1_def model_defs)
  then obtain tr where tr: "run fresh_2_1_1 ?ops = Inr tr" ..
  have "map_sum id (map fst) (run fresh_2_1_1 ?ops) =
      Inr [VehicleParked 1001, StatusReport 4 1 3, VehicleParked 1002, ParkingCharge 60,
           VehicleParked 1003, VehicleParked 1004, NoSlotsAvailable]"
    by (simp add: fresh_2_1_1_def model_defs)
  then have v: "map fst tr = [VehicleParked 1001, StatusReport 4 1 3, VehicleParked 1002,
      ParkingCharge 60, VehicleParked 1003, VehicleParked 1004, NoSlotsAvailable]"
    unfolding tr by simp
  note th = ticket_ids_sequence [OF ctor_2_1_1 tr, THEN conjunct1]
  show ?thesis unfolding tr sum.case by (rule conjI [OF th v])
qed




section \<open>Revenue\<close>

text \<open>
  Claim C8, as the code has it. Over any sequence of unpark operations the revenue
  after each operation is the revenue before it plus the charge it printed (nothing
  for a registration that is not found), so the final revenue is the starting
  revenue plus the sum of the charges. The revenue never decreases provided no
  unpark reads a clock value earlier than the entry time of the ticket it closes.
\<close>

theorem revenue_accumulates:
  assumes "run s (unparks ups) = Inr tr"
  shows "totalRevenue (final_state s tr) =
           totalRevenue s + sum_list (map (\<lambda>x. charge_of (fst x)) tr)
       \<and> (\<forall>m<length tr. revenue_trace s tr ! Suc m =
             revenue_trace s tr ! m + charge_of (fst (tr ! m)))
       \<and> ((\<forall>(reg, now)\<in>set ups.
              case activeTickets s reg of None \<Rightarrow> True | Some t \<Rightarrow> entryTime t \<le> now) \<longrightarrow>
            sorted (revenue_trace s tr) \<and> totalRevenue s \<le> totalRevenue (final_state s tr))"
proof -
  note a = run_revenue [OF assms]
  note b = run_revenue_steps [OF assms]
  have c: "(\<forall>(reg, now)\<in>set ups.
              case activeTickets s reg of None \<Rightarrow> True | Some t \<Rightarrow> entryTime t \<le> now) \<longrightarrow>
            sorted (revenue_trace s tr) \<and> totalRevenue s \<le> totalRevenue (final_state s tr)"
  proof
    assume h: "\<forall>(reg, now)\<in>set ups.
              case activeTickets s reg of None \<Rightarrow> True | Some t \<Rightarrow> entryTime t \<le> now"
    note nn = unparks_charges_nonneg [OF assms h]
    have "sorted (revenue_trace s tr)"
      unfolding sorted_iff_nth_Suc
    proof (intro allI impI)
      fix m assume "Suc m < length (revenue_trace s tr)"
      then have m: "m < length tr" by (simp add: revenue_trace_def)
      with nn have "0 \<le> charge_of (fst (tr ! m))" by simp
      with b m show "revenue_trace s tr ! m \<le> revenue_trace s tr ! Suc m" by simp
    qed
    moreover from nn have "0 \<le> sum_list (map (\<lambda>x. charge_of (fst x)) tr)"
      by (intro sum_list_nonneg) auto
    with a have "totalRevenue s \<le> totalRevenue (final_state s tr)" by simp
    ultimately show "sorted (revenue_trace s tr) \<and> totalRevenue s \<le> totalRevenue (final_state s tr)"
      by simp
  qed
  from a b c show ?thesis by (intro conjI)
qed

theorem revenue_accumulates_witness:
  "(case run two_parked (unparks [(''A'', 14500000000000), (''Z'', 14600000000000), (''B'', 14700000000000)]) of
      Inl e \<Rightarrow> False
    | Inr tr \<Rightarrow>
        totalRevenue (final_state two_parked tr) =
          totalRevenue two_parked + sum_list (map (\<lambda>x. charge_of (fst x)) tr) \<and>
        sorted (revenue_trace two_parked tr) \<and>
        map fst tr = [ParkingCharge 60, VehicleNotFound, ParkingCharge 30] \<and>
        revenue_trace two_parked tr = [0, 60, 60, 90])"
proof -
  let ?ups = "[(''A'', 14500000000000), (''Z'', 14600000000000), (''B'', 14700000000000)]"
  have "\<exists>tr. run two_parked (unparks ?ups) = Inr tr"
    by (simp add: two_parked_def unparks_def occupy_def model_defs)
  then obtain tr where tr: "run two_parked (unparks ?ups) = Inr tr" ..
  have "map_sum id (\<lambda>tr. (map fst tr, revenue_trace two_parked tr)) (run two_parked (unparks ?ups)) =
      Inr ([ParkingCharge 60, VehicleNotFound, ParkingCharge 30], [0, 60, 60, 90])"
    by (simp add: two_parked_def unparks_def occupy_def revenue_trace_def model_defs)
  then have v: "map fst tr = [ParkingCharge 60, VehicleNotFound, ParkingCharge 30]"
    "revenue_trace two_parked tr = [0, 60, 60, 90]"
    unfolding tr by simp_all
  have h: "\<forall>(reg, now)\<in>set ?ups.
      case activeTickets two_parked reg of None \<Rightarrow> True | Some t \<Rightarrow> entryTime t \<le> now"
    by (simp add: two_parked_def Ticket_ctor_def)
  note th = revenue_accumulates [OF tr]
  from th have a: "totalRevenue (final_state two_parked tr) =
          totalRevenue two_parked + sum_list (map (\<lambda>x. charge_of (fst x)) tr)"
    by (rule conjunct1)
  from th h have b: "sorted (revenue_trace two_parked tr)"
    by blast
  show ?thesis unfolding tr sum.case using a b v by (intro conjI)
qed

text \<open>
  A car parked at the clock reading 7200 s (7200000000000 ticks) and unparked at the
  reading 0, as after the clock has been set back, is charged \<open>min (-2 * 20) 200 = -40\<close>: the revenue
  falls from 0 to -40.
\<close>

theorem revenue_monotone_counterexample:
  "run fresh_2_1_1 [Park 1 ''A'' 7190000000000 7200000000000] = Inr [(VehicleParked 1001, one_car_parked)]
   \<and> map_sum id (map (\<lambda>x. (fst x, totalRevenue (snd x))))
        (run one_car_parked (unparks [(''A'', 0)])) = Inr [(ParkingCharge (- 40), - 40)]
   \<and> totalRevenue one_car_parked = 0"
proof -
  have "map_sum id (map (\<lambda>x. (fst x, totalRevenue (snd x))))
        (run one_car_parked (unparks [(''A'', 0)])) = Inr [(ParkingCharge (- 40), - 40)]"
    by (simp add: one_car_parked_def unparks_def occupy_def model_defs)
  moreover have "totalRevenue one_car_parked = 0" by (simp add: one_car_parked_def)
  ultimately show ?thesis using run_one_car by simp
qed

section \<open>Allocation\<close>

text \<open>
  Claim C2. In a state reached from a freshly constructed facility whose ticket
  counter is below \<open>INT_MAX\<close>, when some floor has a free slot whose allowed type is
  the type of the vehicle, park succeeds and issues a ticket for a slot that was free
  and compatible: it lies on the floor with the lowest floor number among the floors
  that have such a slot, and it has the lowest slot id among the free compatible slots
  of that floor. After the park that slot holds the vehicle.
\<close>

theorem park_lowest_floor_lowest_slot:
  assumes "ParkingSystem_ctor n c b = Inr s0" and "run s0 ops = Inr tr"
    and "s = final_state s0 tr"
    and "v = (if typeChoice = 1 then Car reg else Bike reg)"
    and "\<exists>f\<in>set (floors s). \<exists>sl\<in>set (slots f). isCompatible sl (getType v)"
    and "ticketCounter s < INT_MAX"
  shows "\<exists>s' t f sl.
           parkVehicle s typeChoice reg now_slot now_ticket = Inr (VehicleParked (tk_id t), s') \<and>
           activeTickets s' reg = Some t \<and> tk_id t = ticketCounter s + 1 \<and>
           f \<in> set (floors s) \<and> floorNumber f = tk_floor t \<and>
           sl \<in> set (slots f) \<and> ps_id sl = tk_slotId t \<and> isCompatible sl (getType v) \<and>
           (\<forall>f'\<in>set (floors s). (\<exists>sl'\<in>set (slots f'). isCompatible sl' (getType v)) \<longrightarrow>
              tk_floor t \<le> floorNumber f') \<and>
           (\<forall>sl'\<in>set (slots f). isCompatible sl' (getType v) \<longrightarrow> tk_slotId t \<le> ps_id sl') \<and>
           slot_at s (tk_floor t) (tk_slotId t) = Some sl \<and>
           slot_at s' (tk_floor t) (tk_slotId t) = Some (occupy sl v now_slot)"
proof -
  from reachable_inv [OF assms(1,2)] assms(3) have inv: "facility_inv s" by simp
  then have ok: "floors_ok (floors s)" by (simp add: facility_inv_def)
  from assms(5) have "first_pos (floors s) (getType v) \<noteq> None"
    by (simp add: first_pos_None)
  then obtain k i where p: "first_pos (floors s) (getType v) = Some (k, i)" by auto
  note fp = first_pos_compatible [OF p]
  from fp(1) have k: "k < length (floors s)" and i: "i < length (slots (floors s ! k))"
    by (simp_all add: valid_pos_def)
  let ?s' = "parked_state s k i v reg now_slot now_ticket"
  let ?t = "Ticket_ctor (ticketCounter s + 1) reg (getType v) (int k + 1) (int i + 1) now_ticket"
  let ?f = "floors s ! k"
  let ?sl = "slot_nth (floors s) k i"
  have t: "tk_id ?t = ticketCounter s + 1" "tk_floor ?t = int k + 1" "tk_slotId ?t = int i + 1"
    by (simp_all add: Ticket_ctor_def)
  from park_compute [OF ok, of typeChoice reg now_slot now_ticket] p assms(4,6)
  have r: "parkVehicle s typeChoice reg now_slot now_ticket = Inr (VehicleParked (tk_id ?t), ?s')"
    by (simp add: Let_def Ticket_ctor_def)
  have at: "activeTickets ?s' reg = Some ?t" by (simp add: parked_state_def)
  from k have f_in: "?f \<in> set (floors s)" by simp
  from ok k have f_no: "floorNumber ?f = tk_floor ?t" by (simp add: floors_ok_def t)
  from i have sl_in: "?sl \<in> set (slots ?f)" by (simp add: slot_nth_def)
  from floors_ok_slot(1) [OF ok fp(1)] have sl_id: "ps_id ?sl = tk_slotId ?t" by (simp add: t)
  have low_floor: "\<forall>f'\<in>set (floors s). (\<exists>sl'\<in>set (slots f'). isCompatible sl' (getType v)) \<longrightarrow>
              tk_floor ?t \<le> floorNumber f'"
  proof (intro ballI impI)
    fix f' assume f': "f' \<in> set (floors s)"
      and c: "\<exists>sl'\<in>set (slots f'). isCompatible sl' (getType v)"
    from in_floors_nth [OF f'] obtain k' where k': "k' < length (floors s)" "f' = floors s ! k'"
      by blast
    from c k'(2) fp(4) have "\<not> k' < k" by blast
    moreover from ok k' have "floorNumber f' = int k' + 1" by (simp add: floors_ok_def)
    ultimately show "tk_floor ?t \<le> floorNumber f'" by (simp add: t)
  qed
  have low_slot: "\<forall>sl'\<in>set (slots ?f). isCompatible sl' (getType v) \<longrightarrow> tk_slotId ?t \<le> ps_id sl'"
  proof (intro ballI impI)
    fix sl' assume sl': "sl' \<in> set (slots ?f)" and c: "isCompatible sl' (getType v)"
    from sl' obtain j where j: "j < length (slots ?f)" "sl' = slots ?f ! j"
      by (auto simp: in_set_conv_nth)
    from c j(2) fp(3) have "\<not> j < i" by (auto simp: slot_nth_def)
    moreover from ok k j have "ps_id sl' = int j + 1" by (simp add: floors_ok_def floor_ok_def)
    ultimately show "tk_slotId ?t \<le> ps_id sl'" by (simp add: t)
  qed
  from slot_at_pos [OF ok fp(1)] have before: "slot_at s (tk_floor ?t) (tk_slotId ?t) = Some ?sl"
    by (simp add: t)
  have cls: "v = Car (getRegistration v) \<or> v = Bike (getRegistration v)"
    by (simp add: assms(4))
  have regv: "getRegistration v = reg" by (simp add: assms(4))
  from park_inv [OF inv p cls regv, of now_slot now_ticket]
  have ok': "floors_ok (floors ?s')" by (simp add: facility_inv_def)
  have fl': "floors ?s' = park_at (floors s) k i v now_slot" by (simp add: parked_state_def)
  from fp(1) have "valid_pos (floors ?s') k i" by (simp add: fl')
  from slot_at_pos [OF ok' this]
  have after: "slot_at ?s' (tk_floor ?t) (tk_slotId ?t) = Some (occupy ?sl v now_slot)"
    by (simp add: t fl' slot_nth_park_at [OF fp(1)])
  from r at t(1) f_in f_no sl_in sl_id fp(2) low_floor low_slot before after
  show ?thesis by blast
qed

theorem park_lowest_floor_lowest_slot_witness:
  "(\<exists>s' t f sl.
       parkVehicle one_car_parked 1 ''C'' 9000000000000 9001000000000 = Inr (VehicleParked (tk_id t), s') \<and>
       activeTickets s' ''C'' = Some t \<and> tk_id t = ticketCounter one_car_parked + 1 \<and>
       f \<in> set (floors one_car_parked) \<and> floorNumber f = tk_floor t \<and>
       sl \<in> set (slots f) \<and> ps_id sl = tk_slotId t \<and> isCompatible sl CAR \<and>
       list_all (\<lambda>f'. list_ex (\<lambda>sl'. isCompatible sl' CAR) (slots f') \<longrightarrow>
                  tk_floor t \<le> floorNumber f') (floors one_car_parked) \<and>
       list_all (\<lambda>sl'. isCompatible sl' CAR \<longrightarrow> tk_slotId t \<le> ps_id sl') (slots f) \<and>
       slot_at one_car_parked (tk_floor t) (tk_slotId t) = Some sl \<and>
       slot_at s' (tk_floor t) (tk_slotId t) = Some (occupy sl (Car ''C'') 9000000000000))
   \<and> map_sum id (\<lambda>(out, s'). (out, map_option (\<lambda>t. (tk_floor t, tk_slotId t)) (activeTickets s' ''C'')))
        (parkVehicle one_car_parked 1 ''C'' 9000000000000 9001000000000) = Inr (VehicleParked 1002, Some (2, 1))"
proof -
  have fs: "one_car_parked = final_state fresh_2_1_1 [(VehicleParked 1001, one_car_parked)]"
    by (simp add: final_state_def)
  have v: "Car ''C'' = (if (1::int) = 1 then Car ''C'' else Bike ''C'')" by simp
  have ex: "\<exists>f\<in>set (floors one_car_parked). \<exists>sl\<in>set (slots f). isCompatible sl (getType (Car ''C''))"
    by (simp add: one_car_parked_def occupy_def ParkingSlot_ctor_def isCompatible_def)
  have tc: "ticketCounter one_car_parked < INT_MAX"
    by (simp add: one_car_parked_def INT_MAX_def)
  from park_lowest_floor_lowest_slot [OF ctor_2_1_1 run_one_car fs v ex tc, of 9000000000000 9001000000000]
  have "\<exists>s' t f sl.
       parkVehicle one_car_parked 1 ''C'' 9000000000000 9001000000000 = Inr (VehicleParked (tk_id t), s') \<and>
       activeTickets s' ''C'' = Some t \<and> tk_id t = ticketCounter one_car_parked + 1 \<and>
       f \<in> set (floors one_car_parked) \<and> floorNumber f = tk_floor t \<and>
       sl \<in> set (slots f) \<and> ps_id sl = tk_slotId t \<and> isCompatible sl CAR \<and>
       list_all (\<lambda>f'. list_ex (\<lambda>sl'. isCompatible sl' CAR) (slots f') \<longrightarrow>
                  tk_floor t \<le> floorNumber f') (floors one_car_parked) \<and>
       list_all (\<lambda>sl'. isCompatible sl' CAR \<longrightarrow> tk_slotId t \<le> ps_id sl') (slots f) \<and>
       slot_at one_car_parked (tk_floor t) (tk_slotId t) = Some sl \<and>
       slot_at s' (tk_floor t) (tk_slotId t) = Some (occupy sl (Car ''C'') 9000000000000)"
    by (simp only: list_all_iff list_ex_iff getType.simps)
  moreover have "map_sum id (\<lambda>(out, s'). (out, map_option (\<lambda>t. (tk_floor t, tk_slotId t)) (activeTickets s' ''C'')))
        (parkVehicle one_car_parked 1 ''C'' 9000000000000 9001000000000) = Inr (VehicleParked 1002, Some (2, 1))"
    by (simp add: one_car_parked_def occupy_def model_defs)
  ultimately show ?thesis by (rule conjI)
qed

text \<open>
  Claim C9. In a state reached from a freshly constructed facility in which a
  registration has an active ticket, a successful park of a vehicle with the same
  registration puts the new ticket in place of the old one in the active-ticket map.
  The new ticket is for another slot; the slot of the old ticket is untouched and
  still occupied, and no active ticket names it any more.
\<close>

theorem second_park_orphans_first_slot:
  assumes "ParkingSystem_ctor n c b = Inr s0" and "run s0 ops = Inr tr"
    and "s = final_state s0 tr"
    and "activeTickets s reg = Some t1"
    and "parkVehicle s typeChoice reg now_slot now_ticket = Inr (VehicleParked tid, s')"
  shows "\<exists>t2 sl. activeTickets s' reg = Some t2 \<and> tk_id t2 = tid \<and> tid = ticketCounter s + 1 \<and>
           entryTime t2 = now_ticket \<and>
           (tk_floor t2, tk_slotId t2) \<noteq> (tk_floor t1, tk_slotId t1) \<and>
           slot_at s (tk_floor t1) (tk_slotId t1) = Some sl \<and>
           slot_at s' (tk_floor t1) (tk_slotId t1) = Some sl \<and>
           ps_status sl = OCCUPIED \<and>
           (\<forall>r t. activeTickets s' r = Some t \<longrightarrow>
              (tk_floor t, tk_slotId t) \<noteq> (tk_floor t1, tk_slotId t1))"
proof -
  let ?v = "if typeChoice = 1 then Car reg else Bike reg"
  from reachable_inv [OF assms(1,2)] assms(3) have inv: "facility_inv s" by simp
  then have ok: "floors_ok (floors s)" and tk: "tickets_ok s"
    by (simp_all add: facility_inv_def)
  from park_compute [OF ok, of typeChoice reg now_slot now_ticket] assms(5)
  obtain k i where p: "first_pos (floors s) (getType ?v) = Some (k, i)"
    and tid: "tid = ticketCounter s + 1"
    and s': "s' = parked_state s k i ?v reg now_slot now_ticket"
    by (auto simp: Let_def split: option.splits if_splits)
  note fp = first_pos_compatible [OF p]
  let ?t2 = "Ticket_ctor (ticketCounter s + 1) reg (getType ?v) (int k + 1) (int i + 1) now_ticket"
  have t2: "tk_id ?t2 = ticketCounter s + 1" "tk_floor ?t2 = int k + 1"
    "tk_slotId ?t2 = int i + 1" "entryTime ?t2 = now_ticket"
    by (simp_all add: Ticket_ctor_def)
  have at: "activeTickets s' = (activeTickets s)(reg \<mapsto> ?t2)"
    and fl: "floors s' = park_at (floors s) k i ?v now_slot"
    by (simp_all add: s' parked_state_def)
  from tk assms(4) have "ticket_ref (floors s) reg t1" by (auto simp: tickets_ok_def)
  then obtain k1 i1 where r1: "valid_pos (floors s) k1 i1" "tk_floor t1 = int k1 + 1"
    "tk_slotId t1 = int i1 + 1" "ps_status (slot_nth (floors s) k1 i1) = OCCUPIED"
    by (auto simp: ticket_ref_def)
  from r1(4) fp(2) have ne: "\<not> (k1 = k \<and> i1 = i)" by (auto simp: isCompatible_def)
  then have other: "(tk_floor ?t2, tk_slotId ?t2) \<noteq> (tk_floor t1, tk_slotId t1)"
    by (auto simp: t2 r1(2,3))
  let ?sl = "slot_nth (floors s) k1 i1"
  from slot_at_pos [OF ok r1(1)] have before: "slot_at s (tk_floor t1) (tk_slotId t1) = Some ?sl"
    by (simp add: r1(2,3))
  have cls: "?v = Car (getRegistration ?v) \<or> ?v = Bike (getRegistration ?v)" by simp
  have regv: "getRegistration ?v = reg" by simp
  from park_inv [OF inv p cls regv, of now_slot now_ticket]
  have ok': "floors_ok (floors s')" by (simp add: facility_inv_def s')
  from r1(1) have "valid_pos (floors s') k1 i1" by (simp add: fl)
  from slot_at_pos [OF ok' this] ne
  have after: "slot_at s' (tk_floor t1) (tk_slotId t1) = Some ?sl"
    by (simp add: r1(2,3) fl slot_nth_park_at [OF fp(1)])
  have none: "\<forall>r t. activeTickets s' r = Some t \<longrightarrow>
              (tk_floor t, tk_slotId t) \<noteq> (tk_floor t1, tk_slotId t1)"
  proof (intro allI impI)
    fix r t assume h: "activeTickets s' r = Some t"
    show "(tk_floor t, tk_slotId t) \<noteq> (tk_floor t1, tk_slotId t1)"
    proof (cases "r = reg")
      case True
      with h at have "t = ?t2" by simp
      with other show ?thesis by simp
    next
      case False
      with h at have old: "activeTickets s r = Some t" by simp
      show ?thesis
      proof
        assume "(tk_floor t, tk_slotId t) = (tk_floor t1, tk_slotId t1)"
        then have "tk_floor t = tk_floor t1" "tk_slotId t = tk_slotId t1" by simp_all
        with tk old assms(4) have "r = reg" unfolding tickets_ok_def by blast
        with False show False by simp
      qed
    qed
  qed
  have "activeTickets s' reg = Some ?t2" by (simp add: at)
  with t2(1,4) tid other before after r1(4) none show ?thesis by blast
qed

theorem second_park_orphans_first_slot_witness:
  "activeTickets one_car_parked ''A'' = Some (Ticket_ctor 1001 ''A'' CAR 1 1 7200000000000)
   \<and> parkVehicle one_car_parked 1 ''A'' 9000000000000 9001000000000 = Inr (VehicleParked 1002, same_reg_twice)
   \<and> (\<exists>t2 sl. activeTickets same_reg_twice ''A'' = Some t2 \<and> tk_id t2 = 1002 \<and>
         (tk_floor t2, tk_slotId t2) \<noteq> (1, 1) \<and>
         slot_at one_car_parked 1 1 = Some sl \<and>
         slot_at same_reg_twice 1 1 = Some sl \<and>
         ps_status sl = OCCUPIED)
   \<and> activeTickets same_reg_twice = [''A'' \<mapsto> Ticket_ctor 1002 ''A'' CAR 2 1 9001000000000]"
proof -
  have fs: "one_car_parked = final_state fresh_2_1_1 [(VehicleParked 1001, one_car_parked)]"
    by (simp add: final_state_def)
  have t: "activeTickets one_car_parked ''A'' = Some (Ticket_ctor 1001 ''A'' CAR 1 1 7200000000000)"
    by (simp add: one_car_parked_def)
  from second_park_orphans_first_slot [OF ctor_2_1_1 run_one_car fs t same_reg_twice_park]
  have "\<exists>t2 sl. activeTickets same_reg_twice ''A'' = Some t2 \<and> tk_id t2 = 1002 \<and>
         (tk_floor t2, tk_slotId t2) \<noteq> (1, 1) \<and>
         slot_at one_car_parked 1 1 = Some sl \<and>
         slot_at same_reg_twice 1 1 = Some sl \<and>
         ps_status sl = OCCUPIED"
    by (auto simp: Ticket_ctor_def)
  moreover have "activeTickets same_reg_twice = [''A'' \<mapsto> Ticket_ctor 1002 ''A'' CAR 2 1 9001000000000]"
    by (simp add: same_reg_twice_def)
  ultimately show ?thesis using t same_reg_twice_park by simp
qed

end
